theory Spec2Isabelle
  imports Main
begin

section \<open>The options object after validation\<close>

text \<open>
  \<^verbatim>\<open>RedisKeyScanner(options)\<close> (src/index.js) first validates and normalises its options
  object (lines 88-117) and then starts the scan.  The record below is the options object as it
  stands after line 117:
  \<^item> \<^verbatim>\<open>scanBatch\<close>, \<^verbatim>\<open>scanLimit\<close> and \<^verbatim>\<open>limit\<close> are always present and are numbers; their
    default is \<^verbatim>\<open>Infinity\<close> for the two limits;
  \<^item> \<^verbatim>\<open>maxIdle\<close>, \<^verbatim>\<open>maxTTL\<close>, \<^verbatim>\<open>minIdle\<close>, \<^verbatim>\<open>minTTL\<close> are either absent (\<open>None\<close>; reading
    them gives \<^verbatim>\<open>undefined\<close>) or a number of seconds (the result of \<^verbatim>\<open>timeframeToSeconds\<close>,
    which is not \<^verbatim>\<open>NaN\<close>, or the constructor would have thrown);
  \<^item> \<^verbatim>\<open>noExpiry\<close> is not touched by the validation: it is absent (\<open>None\<close>) or present with
    some value, of which the scan only looks at the truthiness (\<open>Some True\<close>, \<open>Some False\<close>).
  Numbers are counts of keys and of seconds: integers.
\<close>

datatype js_number = Num int | Infinity

record options =
  host :: string
  port :: nat
  redisMaster :: "string option"
  db :: "nat option"
  pattern :: string
  scanBatch :: js_number
  scanLimit :: js_number
  limit :: js_number
  maxIdle :: "int option"
  maxTTL :: "int option"
  minIdle :: "int option"
  minTTL :: "int option"
  noExpiry :: "bool option"
  debug :: bool

text \<open>
  The values the locals \<^verbatim>\<open>idletime\<close> and \<^verbatim>\<open>ttl\<close> (lines 199 and 201) can hold: the value half
  of a reply, which is an integer, \<^verbatim>\<open>null\<close> (a nil reply, for a key that is gone) or
  \<^verbatim>\<open>undefined\<close> (the reply of a failed command has no value half); and the boolean \<^verbatim>\<open>false\<close>,
  which is what \<^verbatim>\<open>checkTTL && results[idleIdx + 1][1]\<close> gives when no TTL was fetched.
\<close>

datatype js_value = JSFalse | JSNumber int | JSNull | JSUndefined

text \<open>
  JavaScript's \<^verbatim>\<open>ToNumber\<close> on such a value: \<^verbatim>\<open>false\<close> and \<^verbatim>\<open>null\<close> become 0, \<^verbatim>\<open>undefined\<close>
  becomes \<^verbatim>\<open>NaN\<close> (\<open>None\<close>).
\<close>

fun toNumber :: "js_value \<Rightarrow> int option" where
  "toNumber JSFalse = Some 0"
| "toNumber (JSNumber n) = Some n"
| "toNumber JSNull = Some 0"
| "toNumber JSUndefined = None"

text \<open>\<^verbatim>\<open>isNaN(options.x)\<close> for an optional bound: \<^verbatim>\<open>undefined\<close> converts to \<^verbatim>\<open>NaN\<close>.\<close>

fun isNaN :: "int option \<Rightarrow> bool" where
  "isNaN None = True"
| "isNaN (Some n) = False"

text \<open>
  \<^verbatim>\<open>x <= options.b\<close> and \<^verbatim>\<open>x >= options.b\<close>: both sides are converted to numbers, and a
  comparison with \<^verbatim>\<open>NaN\<close> on either side is false.
\<close>

fun js_le :: "js_value \<Rightarrow> int option \<Rightarrow> bool" where
  "js_le x None = False"
| "js_le x (Some b) = (case toNumber x of None \<Rightarrow> False | Some n \<Rightarrow> n \<le> b)"

fun js_ge :: "js_value \<Rightarrow> int option \<Rightarrow> bool" where
  "js_ge x None = False"
| "js_ge x (Some b) = (case toNumber x of None \<Rightarrow> False | Some n \<Rightarrow> b \<le> n)"

text \<open>\<^verbatim>\<open>ttl === -1\<close>: strict equality, true of the number \<open>-1\<close> only.\<close>

fun strictEqMinusOne :: "js_value \<Rightarrow> bool" where
  "strictEqMinusOne (JSNumber n) = (n = - 1)"
| "strictEqMinusOne v = False"

text \<open>
  \<^verbatim>\<open>hasOption(opt)\<close> (lines 84-86, \<^verbatim>\<open>_.has(options, opt)\<close>) for an optional field: the
  key is in the object.
\<close>

fun hasOption :: "'a option \<Rightarrow> bool" where
  "hasOption None = False"
| "hasOption (Some v) = True"

text \<open>\<^verbatim>\<open>options.noExpiry\<close> used as a condition: \<^verbatim>\<open>undefined\<close> is falsy.\<close>

fun truthy :: "bool option \<Rightarrow> bool" where
  "truthy None = False"
| "truthy (Some b) = b"

section \<open>The filter predicate\<close>

text \<open>
  Lines 204-208: the five bound clauses of the condition that guards a selection (the first
  conjunct of that condition, \<^verbatim>\<open>!atSelectLimit\<close>, belongs to the scan state and is in
  \<open>onKey\<close> below).  A key record of the specification, with integer idle time and TTL, is
  the pair \<open>JSNumber idle\<close>, \<open>JSNumber t\<close>.
\<close>

definition keyMatches :: "options \<Rightarrow> js_value \<Rightarrow> js_value \<Rightarrow> bool" where
  "keyMatches opts idletime t =
     ((isNaN (maxIdle opts) \<or> js_le idletime (maxIdle opts))
    \<and> (isNaN (maxTTL opts) \<or> js_le t (maxTTL opts))
    \<and> (isNaN (minIdle opts) \<or> js_ge idletime (minIdle opts))
    \<and> (isNaN (minTTL opts) \<or> js_ge t (minTTL opts))
    \<and> (\<not> hasOption (noExpiry opts) \<or> (truthy (noExpiry opts) \<and> strictEqMinusOne t)))"

text \<open>
  The filter contract in the words of the specification (section 4.1), a bound being
  configured when the option is present: every configured clause must hold, an absent bound
  is vacuously true, and under \<^verbatim>\<open>noExpiry\<close> only \<open>ttl = -1\<close> is selected.
\<close>

definition specSelect :: "options \<Rightarrow> int \<Rightarrow> int \<Rightarrow> bool" where
  "specSelect opts idle t =
     ((case maxIdle opts of None \<Rightarrow> True | Some m \<Rightarrow> idle \<le> m)
    \<and> (case maxTTL opts of None \<Rightarrow> True | Some m \<Rightarrow> t \<le> m)
    \<and> (case minIdle opts of None \<Rightarrow> True | Some m \<Rightarrow> m \<le> idle)
    \<and> (case minTTL opts of None \<Rightarrow> True | Some m \<Rightarrow> m \<le> t)
    \<and> (case noExpiry opts of None \<Rightarrow> True | Some b \<Rightarrow> t = - 1))"

text \<open>
  The options of the README's module example after validation, with no bound at all; the
  examples below configure bounds on top of it.
\<close>

definition plainOptions :: options where
  "plainOptions =
     \<lparr> host = ''localhost'', port = 6379, redisMaster = None, db = None, pattern = ''*'',
       scanBatch = Num 1000, scanLimit = Infinity, limit = Infinity,
       maxIdle = None, maxTTL = None, minIdle = None, minTTL = None,
       noExpiry = None, debug = False \<rparr>"

text \<open>Options with all four numeric bounds, and options with one bound each.\<close>

definition boundedOptions :: options where
  "boundedOptions =
     plainOptions \<lparr> maxIdle := Some 1000000, maxTTL := Some 3600,
                    minIdle := Some 604800, minTTL := Some 60 \<rparr>"

definition noExpiryOptions :: options where
  "noExpiryOptions = plainOptions \<lparr> noExpiry := Some True \<rparr>"

definition noExpiryFalseOptions :: options where
  "noExpiryFalseOptions = plainOptions \<lparr> noExpiry := Some False \<rparr>"

definition noExpiryMaxIdleOptions :: options where
  "noExpiryMaxIdleOptions = plainOptions \<lparr> noExpiry := Some True, maxIdle := Some 10 \<rparr>"

definition noExpiryBoundedOptions :: options where
  "noExpiryBoundedOptions = boundedOptions \<lparr> noExpiry := Some True \<rparr>"

definition maxTTLOptions :: options where
  "maxTTLOptions = plainOptions \<lparr> maxTTL := Some 3600 \<rparr>"

section \<open>The scan\<close>

subsection \<open>What the scanner emits and what it sends\<close>

text \<open>
  A selected-key record (lines 211-216).  The field \<open>ttl\<close> is \<open>None\<close> when the object has no
  \<^verbatim>\<open>ttl\<close> property.
\<close>

record entry =
  name :: string
  key :: string
  idletime :: js_value
  ttl :: "js_value option"

text \<open>
  The events of the scanner itself: \<^verbatim>\<open>write\<close> emits \<^verbatim>\<open>'data'\<close> (an entry, or the summary
  \<^verbatim>\<open>{keysScanned, keysSelected, ...options}\<close>), \<^verbatim>\<open>end\<close> emits \<^verbatim>\<open>'end'\<close>, and the handler of the
  connection's errors emits \<^verbatim>\<open>'error'\<close>.
\<close>

datatype emission =
    DataEntry entry
  | DataSummary nat nat options
  | EndEvent
  | ErrorEvent string

fun isEntry :: "emission \<Rightarrow> bool" where
  "isEntry (DataEntry e) = True"
| "isEntry x = False"

fun isSummary :: "emission \<Rightarrow> bool" where
  "isSummary (DataSummary a b c) = True"
| "isSummary x = False"

fun isError :: "emission \<Rightarrow> bool" where
  "isError (ErrorEvent e) = True"
| "isError x = False"

text \<open>The commands queued on a pipeline (lines 185-188).\<close>

datatype command = ObjectIdletime string | Ttl string

text \<open>
  \<^verbatim>\<open>pipelinePromises\<close> holds one promise per dispatched page: \<^verbatim>\<open>pipeline.exec().then(...)\<close>.
  Its callback closes over the page (\<open>batchKeys\<close>); \<open>commands\<close> records what the page's
  pipeline was asked to execute.
\<close>

datatype status = Pending | Fulfilled | Rejected

record promise =
  batchKeys :: "string list"
  commands :: "command list"
  status :: status

text \<open>
  What \<^verbatim>\<open>exec()\<close> fulfils with: one pair \<^verbatim>\<open>[err, value]\<close> per command.  A command that failed
  has its error in the first half and no value (\<^verbatim>\<open>undefined\<close>) in the second; the promise of
  \<^verbatim>\<open>exec()\<close> is fulfilled all the same.
\<close>

type_synonym result = "string option \<times> js_value"

subsection \<open>The state of a scan\<close>

text \<open>
  The variables of the constructor's closure (lines 154-167), the two \<^verbatim>\<open>_.once\<close> latches, and
  the scan stream:
  \<^item> \<open>endScanCalled\<close> is the latch of \<^verbatim>\<open>endScan\<close>: its body has run;
  \<^item> \<open>awaiting\<close>: the \<^verbatim>\<open>Promise.all(pipelinePromises).then(...)\<close> whose callback has not run,
    each as the number of promises it was given (the promises pushed by then);
  \<^item> \<open>errorEmitted\<close> is the latch of the \<^verbatim>\<open>redis.on('error', _.once(...))\<close> handler;
  \<^item> \<open>paused\<close>: \<^verbatim>\<open>scanStream.pause()\<close> has been called; \<open>ended\<close>: the stream has emitted
    \<^verbatim>\<open>'end'\<close>; \<open>pagesRequested\<close>: the number of pages the stream has requested from the
    store (one \<^verbatim>\<open>SCAN\<close> command each);
  \<^item> \<open>emitted\<close>: everything the scanner has emitted so far, oldest first.
\<close>

record scan_state =
  atSelectLimit :: bool
  pipelinePromises :: "promise list"
  streamKeysScanned :: nat
  streamKeysSelected :: nat
  endScanCalled :: bool
  awaiting :: "nat list"
  errorEmitted :: bool
  paused :: bool
  ended :: bool
  pagesRequested :: nat
  emitted :: "emission list"

definition initialState :: scan_state where
  "initialState =
     \<lparr> atSelectLimit = False, pipelinePromises = [], streamKeysScanned = 0,
       streamKeysSelected = 0, endScanCalled = False, awaiting = [],
       errorEmitted = False, paused = False, ended = False, pagesRequested = 0,
       emitted = [] \<rparr>"

subsection \<open>Constants computed at scan start\<close>

text \<open>Line 156: \<^verbatim>\<open>_.some(['noExpiry', 'maxTTL', 'minTTL'], hasOption)\<close>.\<close>

definition checkTTL :: "options \<Rightarrow> bool" where
  "checkTTL opts =
     (hasOption (noExpiry opts) \<or> hasOption (maxTTL opts) \<or> hasOption (minTTL opts))"

text \<open>\<^verbatim>\<open>String(port)\<close>, as \<^verbatim>\<open>join(':')\<close> converts the port number.\<close>

fun showNat :: "nat \<Rightarrow> string" where
  "showNat n =
     (if n < 10 then [''0123456789'' ! n]
      else showNat (n div 10) @ [''0123456789'' ! (n mod 10)])"

declare showNat.simps [simp del]

text \<open>
  Lines 120-133: \<^verbatim>\<open>redisDescription\<close> is the master's name when \<^verbatim>\<open>options.redisMaster\<close> is
  truthy (a non-empty string), and \<^verbatim>\<open>host:port\<close> otherwise.
\<close>

definition redisDescription :: "options \<Rightarrow> string" where
  "redisDescription opts =
     (case redisMaster opts of
        None \<Rightarrow> host opts @ '':'' @ showNat (port opts)
      | Some m \<Rightarrow> if m \<noteq> [] then m else host opts @ '':'' @ showNat (port opts))"

text \<open>\<^verbatim>\<open>counter >= options.limit\<close> for a limit that is a number or \<^verbatim>\<open>Infinity\<close>.\<close>

fun reached :: "nat \<Rightarrow> js_number \<Rightarrow> bool" where
  "reached n (Num k) = (k \<le> int n)"
| "reached n Infinity = False"

subsection \<open>The handlers\<close>

text \<open>Lines 185-188: one \<^verbatim>\<open>OBJECT IDLETIME\<close> per key, and a \<^verbatim>\<open>TTL\<close> when \<open>checkTTL\<close>.\<close>

definition pipelineCommands :: "options \<Rightarrow> string list \<Rightarrow> command list" where
  "pipelineCommands opts batch =
     concat (map (\<lambda>k. ObjectIdletime k # (if checkTTL opts then [Ttl k] else [])) batch)"

text \<open>Lines 203-218: the selection of one key, given the locals \<^verbatim>\<open>idletime\<close> and \<^verbatim>\<open>ttl\<close>.\<close>

definition onKey ::
  "options \<Rightarrow> string \<Rightarrow> js_value \<Rightarrow> js_value \<Rightarrow> scan_state \<Rightarrow> scan_state" where
  "onKey opts k idle t s =
     (if \<not> atSelectLimit s \<and> keyMatches opts idle t then
        s\<lparr> streamKeysSelected := streamKeysSelected s + 1,
           atSelectLimit := reached (streamKeysSelected s + 1) (limit opts),
           emitted := emitted s @
             [DataEntry \<lparr> name = redisDescription opts, key = k, idletime = idle,
                          ttl = (if checkTTL opts then Some t else None) \<rparr>] \<rparr>
      else s)"

text \<open>
  \<^verbatim>\<open>results[idx][1]\<close>: the value half of the reply at \<open>idx\<close>; its error half \<^verbatim>\<open>[0]\<close> is
  never read.  Out of range, \<^verbatim>\<open>results[idx]\<close> is \<^verbatim>\<open>undefined\<close> and reading its \<^verbatim>\<open>[1]\<close> throws
  a TypeError: \<open>None\<close>.
\<close>

definition reply :: "result list \<Rightarrow> nat \<Rightarrow> js_value option" where
  "reply results idx = (if idx < length results then Some (snd (results ! idx)) else None)"

text \<open>
  Lines 191-219: the callback of \<^verbatim>\<open>pipeline.exec().then\<close>, a loop over the page with the
  index \<open>i\<close>.  A TypeError leaves the loop and rejects the promise; what the earlier keys of
  the page did stays done.
\<close>

fun eachKey ::
  "options \<Rightarrow> result list \<Rightarrow> nat \<Rightarrow> string list \<Rightarrow> scan_state \<Rightarrow> status \<times> scan_state" where
  "eachKey opts results i [] s = (Fulfilled, s)"
| "eachKey opts results i (k # ks) s =
     (let idleIdx = (if checkTTL opts then i * 2 else i) in
      case reply results idleIdx of
        None \<Rightarrow> (Rejected, s)
      | Some idle \<Rightarrow>
          if checkTTL opts then
            (case reply results (idleIdx + 1) of
               None \<Rightarrow> (Rejected, s)
             | Some t \<Rightarrow> eachKey opts results (i + 1) ks (onKey opts k idle t s))
          else eachKey opts results (i + 1) ks (onKey opts k idle JSFalse s))"

text \<open>
  Lines 169-177: \<^verbatim>\<open>endScan\<close> runs its body once; the body hands the promises pushed so far to
  \<^verbatim>\<open>Promise.all\<close> and attaches the callback that writes the summary.
\<close>

definition endScan :: "scan_state \<Rightarrow> scan_state" where
  "endScan s =
     (if endScanCalled s then s
      else s\<lparr> endScanCalled := True,
              awaiting := awaiting s @ [length (pipelinePromises s)] \<rparr>)"

text \<open>A \<^verbatim>\<open>Promise.all\<close> over the first \<open>n\<close> promises is fulfilled when all of them are.\<close>

definition fulfilledUpTo :: "scan_state \<Rightarrow> nat \<Rightarrow> bool" where
  "fulfilledUpTo s n = list_all (\<lambda>p. status p = Fulfilled) (take n (pipelinePromises s))"

text \<open>
  Lines 170-176: the callback of a \<^verbatim>\<open>Promise.all(...).then\<close> runs once, as soon as every promise
  it awaits is fulfilled, and writes the summary and the end.  It never runs when one of them
  is rejected.  Promise callbacks run before the next event is handled, so the handlers that
  can fulfil a \<^verbatim>\<open>Promise.all\<close> are followed by this step.
\<close>

definition promiseAll :: "options \<Rightarrow> scan_state \<Rightarrow> scan_state" where
  "promiseAll opts s =
     s\<lparr> awaiting := filter (\<lambda>n. \<not> fulfilledUpTo s n) (awaiting s),
        emitted := emitted s @
          concat (map (\<lambda>n. [DataSummary (streamKeysScanned s) (streamKeysSelected s) opts,
                             EndEvent])
                    (filter (fulfilledUpTo s) (awaiting s))) \<rparr>"

text \<open>
  Lines 179-226: the handler of the scan stream's \<^verbatim>\<open>'data'\<close> (without the debug output to
  the console): count the page, queue its commands, push the promise of its pipeline, then
  check the limits.
\<close>

definition onData :: "options \<Rightarrow> string list \<Rightarrow> scan_state \<Rightarrow> scan_state" where
  "onData opts batch s =
     (let s1 = s\<lparr> streamKeysScanned := streamKeysScanned s + length batch,
                  pipelinePromises := pipelinePromises s @
                    [\<lparr> batchKeys = batch, commands = pipelineCommands opts batch,
                       status = Pending \<rparr>] \<rparr>
      in if atSelectLimit s1 \<or> reached (streamKeysScanned s1) (scanLimit opts)
         then endScan (s1\<lparr> paused := True \<rparr>)
         else s1)"

text \<open>The \<open>n\<close>-th pipeline's \<^verbatim>\<open>exec()\<close> fulfils with \<open>results\<close>: its callback runs.\<close>

definition onResolved :: "options \<Rightarrow> nat \<Rightarrow> result list \<Rightarrow> scan_state \<Rightarrow> scan_state" where
  "onResolved opts n results s =
     (let p = pipelinePromises s ! n;
          r = eachKey opts results 0 (batchKeys p) s
      in (snd r)\<lparr> pipelinePromises := (pipelinePromises (snd r))[n := p\<lparr> status := fst r \<rparr>] \<rparr>)"

text \<open>The \<open>n\<close>-th pipeline's \<^verbatim>\<open>exec()\<close> rejects: no handler is attached, nothing runs.\<close>

definition onRejected :: "nat \<Rightarrow> scan_state \<Rightarrow> scan_state" where
  "onRejected n s =
     s\<lparr> pipelinePromises :=
          (pipelinePromises s)[n := (pipelinePromises s ! n)\<lparr> status := Rejected \<rparr>] \<rparr>"

text \<open>Lines 149-151: the connection's \<^verbatim>\<open>'error'\<close>, forwarded once.\<close>

definition onRedisError :: "string \<Rightarrow> scan_state \<Rightarrow> scan_state" where
  "onRedisError err s =
     (if errorEmitted s then s
      else s\<lparr> errorEmitted := True, emitted := emitted s @ [ErrorEvent err] \<rparr>)"

subsection \<open>Runs\<close>

text \<open>
  What the scanner's collaborators can do to it.
  \<^item> \<open>Page\<close>: the scan stream, flowing, requests a page from the store and delivers it
    (\<^verbatim>\<open>'data'\<close>).  It delivers only while it is neither paused nor ended.
  \<^item> \<open>ReadAhead\<close>: the scan stream, paused, requests a page from the store and keeps it in
    its buffer.  A paused \<^verbatim>\<open>Readable\<close> stops delivering, not reading: it goes on filling its
    buffer, up to its high-water mark (the model puts no bound on it).  The scanner never
    resumes the stream, so such a page is never delivered.
  \<^item> \<open>StreamEnd\<close>: the stream ends, at most once (an end that races with a pause is let
    through: \<^verbatim>\<open>endScan\<close> is then called a second time).
  \<^item> \<open>Resolved\<close>, \<open>Failed\<close>: a pipeline's \<^verbatim>\<open>exec()\<close> settles, once, while its promise is
    pending.  With replies for all its commands, failed ones included, it fulfils.
  \<^item> \<open>RedisError\<close>: the connection reports an error, at any time.
  An event that cannot happen in the current state leaves it unchanged.
\<close>

datatype event =
    Page "string list"
  | ReadAhead
  | StreamEnd
  | Resolved nat "result list"
  | Failed nat
  | RedisError string

fun step :: "options \<Rightarrow> scan_state \<Rightarrow> event \<Rightarrow> scan_state" where
  "step opts s (Page batch) =
     (if paused s \<or> ended s then s
      else promiseAll opts (onData opts batch (s\<lparr> pagesRequested := pagesRequested s + 1 \<rparr>)))"
| "step opts s ReadAhead =
     (if paused s \<and> \<not> ended s then s\<lparr> pagesRequested := pagesRequested s + 1 \<rparr> else s)"
| "step opts s StreamEnd =
     (if ended s then s else promiseAll opts (endScan (s\<lparr> ended := True \<rparr>)))"
| "step opts s (Resolved n results) =
     (if n < length (pipelinePromises s) \<and> status (pipelinePromises s ! n) = Pending
      then promiseAll opts (onResolved opts n results s) else s)"
| "step opts s (Failed n) =
     (if n < length (pipelinePromises s) \<and> status (pipelinePromises s ! n) = Pending
      then onRejected n s else s)"
| "step opts s (RedisError err) = onRedisError err s"

definition run :: "options \<Rightarrow> event list \<Rightarrow> scan_state" where
  "run opts evs = foldl (step opts) initialState evs"

subsection \<open>Invariants of a scan\<close>

text \<open>The summary has been written: \<^verbatim>\<open>endScan\<close> was called and its callback has run.\<close>

definition summaryWritten :: "scan_state \<Rightarrow> bool" where
  "summaryWritten s \<longleftrightarrow> endScanCalled s \<and> awaiting s = []"

text \<open>Every dispatched batch is fulfilled.\<close>

definition allFulfilled :: "scan_state \<Rightarrow> bool" where
  "allFulfilled s = list_all (\<lambda>p. status p = Fulfilled) (pipelinePromises s)"

text \<open>What is emitted before the summary: entries, and possibly the connection's error.\<close>

definition plain :: "emission \<Rightarrow> bool" where
  "plain e = (isEntry e \<or> isError e)"

text \<open>
  The latch and the stream.  Before \<^verbatim>\<open>endScan\<close> is called the stream is neither paused nor
  ended and no \<^verbatim>\<open>Promise.all\<close> is waiting.  Once it is called the stream is paused or ended,
  and either its callback has run and every batch is fulfilled, or the one \<^verbatim>\<open>Promise.all\<close>
  waits for every promise there is, of which some is not fulfilled.
\<close>

definition scanInv :: "scan_state \<Rightarrow> bool" where
  "scanInv s \<longleftrightarrow>
     (if endScanCalled s
      then (paused s \<or> ended s)
         \<and> (if allFulfilled s then awaiting s = []
            else awaiting s = [length (pipelinePromises s)])
      else awaiting s = [] \<and> \<not> paused s \<and> \<not> ended s)"

text \<open>
  The order of the emissions: entries (and errors), then, once the summary is written, the
  summary with the current counters, the end, and nothing but errors after it.
\<close>

definition emittedShape :: "options \<Rightarrow> scan_state \<Rightarrow> bool" where
  "emittedShape opts s \<longleftrightarrow>
     (if summaryWritten s then
        \<exists>pre post. emitted s =
            pre @ [DataSummary (streamKeysScanned s) (streamKeysSelected s) opts, EndEvent] @ post
          \<and> list_all plain pre \<and> list_all isError post
      else list_all plain (emitted s))"

text \<open>The sum of the lengths of all pages dispatched so far.\<close>

definition dispatchedKeys :: "scan_state \<Rightarrow> nat" where
  "dispatchedKeys s = sum_list (map (\<lambda>p. length (batchKeys p)) (pipelinePromises s))"

text \<open>The connection errors among the events of a run, in order.\<close>

fun redisErrors :: "event list \<Rightarrow> string list" where
  "redisErrors [] = []"
| "redisErrors (RedisError err # evs) = err # redisErrors evs"
| "redisErrors (e # evs) = redisErrors evs"

text \<open>
  The select limit \<open>L\<close> is respected: the counter is at most \<open>L\<close>, and the flag says whether
  it has reached \<open>L\<close>.
\<close>

definition withinLimit :: "int \<Rightarrow> scan_state \<Rightarrow> bool" where
  "withinLimit L s \<longleftrightarrow>
     int (streamKeysSelected s) \<le> L \<and> (atSelectLimit s \<longleftrightarrow> L \<le> int (streamKeysSelected s))"

text \<open>
  A well-formed selected-key record: the name is the scan's \<open>redisDescription\<close>; the \<open>ttl\<close>
  field is there exactly when \<open>checkTTL\<close>; and the record's values are values that pass the
  filter.
\<close>

definition entryShape :: "options \<Rightarrow> emission \<Rightarrow> bool" where
  "entryShape opts x =
     (case x of
        DataEntry e \<Rightarrow>
          name e = redisDescription opts
          \<and> (if checkTTL opts
             then (case ttl e of None \<Rightarrow> False | Some t \<Rightarrow> keyMatches opts (idletime e) t)
             else ttl e = None \<and> keyMatches opts (idletime e) JSFalse)
      | _ \<Rightarrow> True)"

subsection \<open>Example runs\<close>

text \<open>A reply with a value, and the reply of a command that failed.\<close>

definition ok :: "int \<Rightarrow> result" where
  "ok n = (None, JSNumber n)"

definition failed :: "string \<Rightarrow> result" where
  "failed err = (Some err, JSUndefined)"

text \<open>
  Scenario D of the specification: \<^verbatim>\<open>scanLimit\<close> 2 and pages of one key, over ten keys.
\<close>

definition scanLimitOptions :: options where
  "scanLimitOptions = plainOptions \<lparr> scanBatch := Num 1, scanLimit := Num 2 \<rparr>"

definition tenPages :: "event list" where
  "tenPages = map (\<lambda>k. Page [k])
     [''k0'', ''k1'', ''k2'', ''k3'', ''k4'', ''k5'', ''k6'', ''k7'', ''k8'', ''k9'']"

text \<open>Scenario D completed: the two dispatched batches resolve.\<close>

definition tenPagesResolved :: "event list" where
  "tenPagesResolved = tenPages @ [Resolved 0 [ok 10], Resolved 1 [ok 20]]"

text \<open>
  The second page reaches the scan limit and the stream is paused; the paused stream requests
  a third page for its buffer; a page of six keys crosses a scan limit of 2 at once.
\<close>

definition pausedThenReadAhead :: "event list" where
  "pausedThenReadAhead = [Page [''k0''], Page [''k1''], ReadAhead]"

definition bigPage :: "event list" where
  "bigPage = [Page [''a'', ''b'', ''c'', ''d'', ''e'', ''f'']]"

text \<open>
  The second page reaches the scan limit, and the stream ends as well; the batches resolve
  out of order.
\<close>

definition raceEvents :: "event list" where
  "raceEvents =
     [Page [''k0''], Page [''k1''], StreamEnd, Resolved 1 [ok 10], Resolved 0 [ok 10]]"

text \<open>
  Scenario E: the batch request of the second page fails.  With the client the scanner uses,
  the command's error comes back in its reply and \<^verbatim>\<open>exec()\<close> fulfils.
\<close>

definition failedCommandEvents :: "event list" where
  "failedCommandEvents =
     [Page [''k0''], Page [''k1''], Resolved 0 [ok 10],
      Resolved 1 [failed ''ERR no such key''], StreamEnd]"

text \<open>The same scan, were \<^verbatim>\<open>exec()\<close> itself to reject.\<close>

definition failedBatchEvents :: "event list" where
  "failedBatchEvents = [Page [''k0''], Page [''k1''], Failed 1, Resolved 0 [ok 10], StreamEnd]"

text \<open>The connection reports an error and recovers; the scan goes on to its end.\<close>

definition connectionErrorEvents :: "event list" where
  "connectionErrorEvents =
     [RedisError ''ECONNRESET'', Page [''k0''], Resolved 0 [ok 10], StreamEnd]"

text \<open>Scenario C of the specification: \<^verbatim>\<open>limit\<close> 1 over three matching keys.\<close>

definition selectLimitOptions :: options where
  "selectLimitOptions = plainOptions \<lparr> limit := Num 1 \<rparr>"

definition threeKeysEvents :: "event list" where
  "threeKeysEvents = [Page [''a'', ''b'', ''c''], Resolved 0 [ok 10, ok 10, ok 10], StreamEnd]"

text \<open>Scenario F of the specification: \<^verbatim>\<open>noExpiry\<close> over keys with TTLs -1, 120 and -1.\<close>

definition scenarioFEvents :: "event list" where
  "scenarioFEvents =
     [Page [''a'', ''b'', ''c''],
      Resolved 0 [ok 10, ok (- 1), ok 20, ok 120, ok 30, ok (- 1)], StreamEnd]"

section \<open>Properties of the filter predicate\<close>

lemma keyMatches_iff:
  "keyMatches opts (JSNumber idle) (JSNumber t) \<longleftrightarrow>
     (case maxIdle opts of None \<Rightarrow> True | Some m \<Rightarrow> idle \<le> m)
   \<and> (case maxTTL opts of None \<Rightarrow> True | Some m \<Rightarrow> t \<le> m)
   \<and> (case minIdle opts of None \<Rightarrow> True | Some m \<Rightarrow> m \<le> idle)
   \<and> (case minTTL opts of None \<Rightarrow> True | Some m \<Rightarrow> m \<le> t)
   \<and> (case noExpiry opts of None \<Rightarrow> True | Some b \<Rightarrow> b \<and> t = - 1)"
  by (simp add: keyMatches_def split: option.splits)

lemma keyMatches_unbounded:
  "maxIdle opts = None \<Longrightarrow> maxTTL opts = None \<Longrightarrow> minIdle opts = None \<Longrightarrow>
   minTTL opts = None \<Longrightarrow> noExpiry opts = None \<Longrightarrow> keyMatches opts i v"
  by (simp add: keyMatches_def)

lemma keyMatches_noExpiry_false: "noExpiry opts = Some False \<Longrightarrow> \<not> keyMatches opts i v"
  by (simp add: keyMatches_def)

lemma keyMatches_noExpiry_true:
  "noExpiry opts = Some True \<Longrightarrow> keyMatches opts i v \<Longrightarrow> v = JSNumber (- 1)"
  by (cases v) (simp_all add: keyMatches_def)

text \<open>
  C1 (amended).  For every key record with idle time \<open>idle\<close> and TTL \<open>t\<close> and all validated
  options, the filter selects the key if and only if every configured bound clause holds:
  \<open>idle \<le> maxIdle\<close>, \<open>t \<le> maxTTL\<close>, \<open>idle \<ge> minIdle\<close>, \<open>t \<ge> minTTL\<close>, each when the bound is
  present, and, when \<open>noExpiry\<close> is present, its value is truthy and \<open>t = -1\<close>.  An absent bound
  is vacuously true: when no TTL option is present (and no TTL is fetched) only the idle-time
  clauses decide, and with no bound at all every key record is selected.  Away from a
  \<open>noExpiry\<close> present with a falsy value, this is the specification's contract \<open>specSelect\<close>.
\<close>

theorem filter_selects_iff_bounds_hold:
  "(keyMatches opts (JSNumber idle) (JSNumber t) \<longleftrightarrow>
      (\<forall>m. maxIdle opts = Some m \<longrightarrow> idle \<le> m)
    \<and> (\<forall>m. maxTTL opts = Some m \<longrightarrow> t \<le> m)
    \<and> (\<forall>m. minIdle opts = Some m \<longrightarrow> m \<le> idle)
    \<and> (\<forall>m. minTTL opts = Some m \<longrightarrow> m \<le> t)
    \<and> (\<forall>b. noExpiry opts = Some b \<longrightarrow> b \<and> t = - 1))
   \<and> (noExpiry opts \<noteq> Some False \<longrightarrow>
        keyMatches opts (JSNumber idle) (JSNumber t) = specSelect opts idle t)
   \<and> (\<not> checkTTL opts \<longrightarrow>
        (keyMatches opts (JSNumber idle) v \<longleftrightarrow>
           (\<forall>m. maxIdle opts = Some m \<longrightarrow> idle \<le> m)
         \<and> (\<forall>m. minIdle opts = Some m \<longrightarrow> m \<le> idle)))
   \<and> (maxIdle opts = None \<and> maxTTL opts = None \<and> minIdle opts = None
        \<and> minTTL opts = None \<and> noExpiry opts = None \<longrightarrow> keyMatches opts i v)"
proof (intro conjI impI)
  show "keyMatches opts (JSNumber idle) (JSNumber t) \<longleftrightarrow>
      (\<forall>m. maxIdle opts = Some m \<longrightarrow> idle \<le> m)
    \<and> (\<forall>m. maxTTL opts = Some m \<longrightarrow> t \<le> m)
    \<and> (\<forall>m. minIdle opts = Some m \<longrightarrow> m \<le> idle)
    \<and> (\<forall>m. minTTL opts = Some m \<longrightarrow> m \<le> t)
    \<and> (\<forall>b. noExpiry opts = Some b \<longrightarrow> b \<and> t = - 1)"
    unfolding keyMatches_iff by (simp split: option.splits)
next
  assume "noExpiry opts \<noteq> Some False"
  then show "keyMatches opts (JSNumber idle) (JSNumber t) = specSelect opts idle t"
    unfolding keyMatches_iff specSelect_def by (auto split: option.splits)
next
  assume "\<not> checkTTL opts"
  then have "noExpiry opts = None" "maxTTL opts = None" "minTTL opts = None"
    by (cases "noExpiry opts"; cases "maxTTL opts"; cases "minTTL opts";
        simp add: checkTTL_def)+
  then show "keyMatches opts (JSNumber idle) v \<longleftrightarrow>
           (\<forall>m. maxIdle opts = Some m \<longrightarrow> idle \<le> m)
         \<and> (\<forall>m. minIdle opts = Some m \<longrightarrow> m \<le> idle)"
    by (cases "maxIdle opts"; cases "minIdle opts") (simp_all add: keyMatches_def)
next
  assume "maxIdle opts = None \<and> maxTTL opts = None \<and> minIdle opts = None
        \<and> minTTL opts = None \<and> noExpiry opts = None"
  then show "keyMatches opts i v"
    by (simp add: keyMatches_unbounded)
qed

theorem filter_selects_iff_bounds_hold_witness:
  "keyMatches boundedOptions (JSNumber 900000) (JSNumber 120)
   \<and> \<not> keyMatches boundedOptions (JSNumber 100) (JSNumber 120)
   \<and> \<not> keyMatches boundedOptions (JSNumber 900000) (JSNumber 7200)
   \<and> keyMatches noExpiryOptions (JSNumber 5) (JSNumber (- 1))
   \<and> keyMatches noExpiryOptions (JSNumber 5) (JSNumber (- 1)) = specSelect noExpiryOptions 5 (- 1)
   \<and> keyMatches plainOptions (JSNumber 100) JSFalse"
  using filter_selects_iff_bounds_hold
          [where opts = boundedOptions and idle = 900000 and t = 120 and v = JSFalse
             and i = JSNull]
        filter_selects_iff_bounds_hold
          [where opts = boundedOptions and idle = 100 and t = 120 and v = JSFalse and i = JSNull]
        filter_selects_iff_bounds_hold
          [where opts = boundedOptions and idle = 900000 and t = 7200 and v = JSFalse
             and i = JSNull]
        filter_selects_iff_bounds_hold
          [where opts = noExpiryOptions and idle = 5 and t = "- 1" and v = JSFalse
             and i = JSNull]
        filter_selects_iff_bounds_hold
          [where opts = plainOptions and idle = 100 and t = 0 and v = JSFalse
             and i = "JSNumber 100"]
  by (simp add: boundedOptions_def noExpiryOptions_def plainOptions_def keyMatches_def
        specSelect_def)

text \<open>
  C1 as stated fails for options that hold \<open>noExpiry\<close> with the value \<^verbatim>\<open>false\<close>: the key with
  \<open>ttl = -1\<close> satisfies every clause of the contract (and no clause at all, were a false
  \<open>noExpiry\<close> read as not configured), yet the filter rejects it.
\<close>

theorem filter_rejects_under_false_noExpiry:
  "\<not> keyMatches noExpiryFalseOptions (JSNumber 0) (JSNumber (- 1))
   \<and> specSelect noExpiryFalseOptions 0 (- 1)"
  by (simp add: keyMatches_def specSelect_def noExpiryFalseOptions_def plainOptions_def)

text \<open>
  C4 (amended).  For all options in which \<open>noExpiry\<close> is configured true and every key record,
  the filter returns true if and only if \<open>ttl = -1\<close> and every other configured bound
  (\<open>maxIdle\<close>, \<open>minIdle\<close>, \<open>maxTTL\<close>, \<open>minTTL\<close>) holds for the record as well; so it selects only
  keys with \<open>ttl = -1\<close>, and when no other bound is configured it returns true exactly when
  \<open>ttl = -1\<close>.
\<close>

theorem noExpiry_selects_only_persistent_keys:
  assumes "noExpiry opts = Some True"
  shows "(keyMatches opts (JSNumber idle) (JSNumber t) \<longleftrightarrow>
            t = - 1
          \<and> (\<forall>m. maxIdle opts = Some m \<longrightarrow> idle \<le> m)
          \<and> (\<forall>m. minIdle opts = Some m \<longrightarrow> m \<le> idle)
          \<and> (\<forall>m. maxTTL opts = Some m \<longrightarrow> - 1 \<le> m)
          \<and> (\<forall>m. minTTL opts = Some m \<longrightarrow> m \<le> - 1))
       \<and> (keyMatches opts i v \<longrightarrow> v = JSNumber (- 1))
       \<and> (maxIdle opts = None \<and> minIdle opts = None \<and> maxTTL opts = None
            \<and> minTTL opts = None \<longrightarrow> (keyMatches opts i (JSNumber t) \<longleftrightarrow> t = - 1))"
proof (intro conjI impI)
  show "keyMatches opts (JSNumber idle) (JSNumber t) \<longleftrightarrow>
            t = - 1
          \<and> (\<forall>m. maxIdle opts = Some m \<longrightarrow> idle \<le> m)
          \<and> (\<forall>m. minIdle opts = Some m \<longrightarrow> m \<le> idle)
          \<and> (\<forall>m. maxTTL opts = Some m \<longrightarrow> - 1 \<le> m)
          \<and> (\<forall>m. minTTL opts = Some m \<longrightarrow> m \<le> - 1)"
    unfolding keyMatches_iff using assms by (auto split: option.splits)
next
  assume "keyMatches opts i v"
  with assms show "v = JSNumber (- 1)"
    by (rule keyMatches_noExpiry_true)
next
  assume "maxIdle opts = None \<and> minIdle opts = None \<and> maxTTL opts = None
            \<and> minTTL opts = None"
  then show "keyMatches opts i (JSNumber t) \<longleftrightarrow> t = - 1"
    using assms by (simp add: keyMatches_def)
qed

theorem noExpiry_selects_only_persistent_keys_witness:
  "noExpiry noExpiryMaxIdleOptions = Some True
   \<and> keyMatches noExpiryMaxIdleOptions (JSNumber 7) (JSNumber (- 1))
   \<and> \<not> keyMatches noExpiryMaxIdleOptions (JSNumber 7) (JSNumber 120)
   \<and> keyMatches noExpiryOptions (JSNumber 100) (JSNumber (- 1))
   \<and> \<not> keyMatches noExpiryOptions (JSNumber 100) (JSNumber 120)
   \<and> \<not> keyMatches noExpiryBoundedOptions (JSNumber 700000) (JSNumber (- 1))"
proof -
  have a: "noExpiry noExpiryMaxIdleOptions = Some True"
    by (simp add: noExpiryMaxIdleOptions_def)
  have b: "noExpiry noExpiryOptions = Some True"
    by (simp add: noExpiryOptions_def)
  have c: "noExpiry noExpiryBoundedOptions = Some True"
    by (simp add: noExpiryBoundedOptions_def)
  show ?thesis
    using a
      noExpiry_selects_only_persistent_keys
        [OF a, where idle = 7 and t = "- 1" and i = "JSNumber 7" and v = "JSNumber (- 1)"]
      noExpiry_selects_only_persistent_keys
        [OF a, where idle = 7 and t = 120 and i = "JSNumber 7" and v = JSFalse]
      noExpiry_selects_only_persistent_keys
        [OF b, where idle = 100 and t = "- 1" and i = "JSNumber 100" and v = "JSNumber (- 1)"]
      noExpiry_selects_only_persistent_keys
        [OF b, where idle = 100 and t = 120 and i = "JSNumber 100" and v = JSFalse]
      noExpiry_selects_only_persistent_keys
        [OF c, where idle = 700000 and t = "- 1" and i = JSNull and v = JSFalse]
    by (simp add: noExpiryMaxIdleOptions_def noExpiryOptions_def noExpiryBoundedOptions_def
          boundedOptions_def plainOptions_def keyMatches_def)
qed

text \<open>
  C4 as stated fails: with \<open>noExpiry\<close> true and \<open>maxIdle\<close> 10 seconds, a key with \<open>ttl = -1\<close>
  that has been idle for 100 seconds is rejected, though the same key is selected when
  \<open>maxIdle\<close> is not configured.
\<close>

theorem noExpiry_still_applies_idle_bounds:
  "\<not> keyMatches noExpiryMaxIdleOptions (JSNumber 100) (JSNumber (- 1))
   \<and> keyMatches noExpiryOptions (JSNumber 100) (JSNumber (- 1))"
  by (simp add: keyMatches_def noExpiryMaxIdleOptions_def noExpiryOptions_def plainOptions_def)

text \<open>
  C5 (amended).  The filter compares the TTL, the sentinel \<open>-1\<close> included, as a signed
  integer.  With \<open>noExpiry\<close> not configured, a key record with \<open>ttl = -1\<close> satisfies the
  \<open>maxTTL\<close> clause exactly when \<open>-1 \<le> maxTTL\<close> and the \<open>minTTL\<close> clause exactly when
  \<open>minTTL \<le> -1\<close>: it is selected if and only if these and the idle-time clauses hold.  So
  under a \<open>maxTTL\<close> of at least \<open>-1\<close> alone every key without expiry is selected, and under a
  \<open>minTTL\<close> of at least 0 none is.
\<close>

theorem sentinel_ttl_compared_as_integer:
  assumes "noExpiry opts = None"
  shows "(keyMatches opts (JSNumber idle) (JSNumber (- 1)) \<longleftrightarrow>
            (\<forall>m. maxTTL opts = Some m \<longrightarrow> - 1 \<le> m)
          \<and> (\<forall>m. minTTL opts = Some m \<longrightarrow> m \<le> - 1)
          \<and> (\<forall>m. maxIdle opts = Some m \<longrightarrow> idle \<le> m)
          \<and> (\<forall>m. minIdle opts = Some m \<longrightarrow> m \<le> idle))
       \<and> (maxTTL opts = Some m \<and> - 1 \<le> m \<and> minTTL opts = None \<and> maxIdle opts = None
            \<and> minIdle opts = None \<longrightarrow> keyMatches opts i (JSNumber (- 1)))
       \<and> (minTTL opts = Some m \<and> 0 \<le> m \<longrightarrow> \<not> keyMatches opts i (JSNumber (- 1)))"
proof (intro conjI impI)
  show "keyMatches opts (JSNumber idle) (JSNumber (- 1)) \<longleftrightarrow>
            (\<forall>m. maxTTL opts = Some m \<longrightarrow> - 1 \<le> m)
          \<and> (\<forall>m. minTTL opts = Some m \<longrightarrow> m \<le> - 1)
          \<and> (\<forall>m. maxIdle opts = Some m \<longrightarrow> idle \<le> m)
          \<and> (\<forall>m. minIdle opts = Some m \<longrightarrow> m \<le> idle)"
    unfolding keyMatches_iff using assms by (auto split: option.splits)
next
  assume "maxTTL opts = Some m \<and> - 1 \<le> m \<and> minTTL opts = None \<and> maxIdle opts = None
            \<and> minIdle opts = None"
  then show "keyMatches opts i (JSNumber (- 1))"
    using assms by (simp add: keyMatches_def)
next
  assume "minTTL opts = Some m \<and> 0 \<le> m"
  then show "\<not> keyMatches opts i (JSNumber (- 1))"
    by (simp add: keyMatches_def)
qed

theorem sentinel_ttl_compared_as_integer_witness:
  "noExpiry maxTTLOptions = None
   \<and> maxTTL maxTTLOptions = Some 3600
   \<and> keyMatches maxTTLOptions (JSNumber 42) (JSNumber (- 1))
   \<and> \<not> keyMatches boundedOptions (JSNumber 700000) (JSNumber (- 1))"
proof -
  have a: "noExpiry maxTTLOptions = None"
    by (simp add: maxTTLOptions_def plainOptions_def)
  have b: "noExpiry boundedOptions = None"
    by (simp add: boundedOptions_def plainOptions_def)
  show ?thesis
    using a
      sentinel_ttl_compared_as_integer
        [OF a, where idle = 42 and m = 3600 and i = "JSNumber 42"]
      sentinel_ttl_compared_as_integer
        [OF b, where idle = 700000 and m = 60 and i = "JSNumber 700000"]
    by (simp add: maxTTLOptions_def boundedOptions_def plainOptions_def keyMatches_def)
qed

text \<open>
  C5 as stated fails: with \<open>maxTTL\<close> one hour and \<open>noExpiry\<close> absent, a key with \<open>ttl = -1\<close>
  passes the \<open>maxTTL\<close> clause, because \<open>-1 \<le> 3600\<close>, and is selected.
\<close>

theorem persistent_key_selected_under_maxTTL:
  "noExpiry maxTTLOptions = None \<and> maxTTL maxTTLOptions = Some 3600
   \<and> keyMatches maxTTLOptions (JSNumber 0) (JSNumber (- 1))"
  by (simp add: keyMatches_def maxTTLOptions_def plainOptions_def)

section \<open>Properties of the scan\<close>

subsection \<open>What each handler leaves unchanged\<close>

lemma onKey_frame [simp]:
  "pipelinePromises (onKey opts k idle t s) = pipelinePromises s"
  "streamKeysScanned (onKey opts k idle t s) = streamKeysScanned s"
  "endScanCalled (onKey opts k idle t s) = endScanCalled s"
  "awaiting (onKey opts k idle t s) = awaiting s"
  "errorEmitted (onKey opts k idle t s) = errorEmitted s"
  "paused (onKey opts k idle t s) = paused s"
  "ended (onKey opts k idle t s) = ended s"
  "pagesRequested (onKey opts k idle t s) = pagesRequested s"
  by (simp_all add: onKey_def)

lemma eachKey_frame [simp]:
  "pipelinePromises (snd (eachKey opts rs i ks s)) = pipelinePromises s"
  "streamKeysScanned (snd (eachKey opts rs i ks s)) = streamKeysScanned s"
  "endScanCalled (snd (eachKey opts rs i ks s)) = endScanCalled s"
  "awaiting (snd (eachKey opts rs i ks s)) = awaiting s"
  "errorEmitted (snd (eachKey opts rs i ks s)) = errorEmitted s"
  "paused (snd (eachKey opts rs i ks s)) = paused s"
  "ended (snd (eachKey opts rs i ks s)) = ended s"
  "pagesRequested (snd (eachKey opts rs i ks s)) = pagesRequested s"
  by (induction ks arbitrary: i s; simp add: Let_def split: option.splits)+

lemma endScan_frame [simp]:
  "atSelectLimit (endScan s) = atSelectLimit s"
  "pipelinePromises (endScan s) = pipelinePromises s"
  "streamKeysScanned (endScan s) = streamKeysScanned s"
  "streamKeysSelected (endScan s) = streamKeysSelected s"
  "errorEmitted (endScan s) = errorEmitted s"
  "paused (endScan s) = paused s"
  "ended (endScan s) = ended s"
  "pagesRequested (endScan s) = pagesRequested s"
  "emitted (endScan s) = emitted s"
  "endScanCalled (endScan s)"
  by (simp_all add: endScan_def)

lemma onData_frame [simp]:
  "atSelectLimit (onData opts batch s) = atSelectLimit s"
  "streamKeysSelected (onData opts batch s) = streamKeysSelected s"
  "errorEmitted (onData opts batch s) = errorEmitted s"
  "ended (onData opts batch s) = ended s"
  "pagesRequested (onData opts batch s) = pagesRequested s"
  "emitted (onData opts batch s) = emitted s"
  "streamKeysScanned (onData opts batch s) = streamKeysScanned s + length batch"
  by (simp_all add: onData_def Let_def)

lemma onResolved_frame [simp]:
  "streamKeysScanned (onResolved opts n rs s) = streamKeysScanned s"
  "endScanCalled (onResolved opts n rs s) = endScanCalled s"
  "awaiting (onResolved opts n rs s) = awaiting s"
  "errorEmitted (onResolved opts n rs s) = errorEmitted s"
  "paused (onResolved opts n rs s) = paused s"
  "ended (onResolved opts n rs s) = ended s"
  "pagesRequested (onResolved opts n rs s) = pagesRequested s"
  "length (pipelinePromises (onResolved opts n rs s)) = length (pipelinePromises s)"
  by (simp_all add: onResolved_def Let_def)

lemma onResolved_selection:
  "atSelectLimit (onResolved opts n rs s)
     = atSelectLimit (snd (eachKey opts rs 0 (batchKeys (pipelinePromises s ! n)) s))"
  "streamKeysSelected (onResolved opts n rs s)
     = streamKeysSelected (snd (eachKey opts rs 0 (batchKeys (pipelinePromises s ! n)) s))"
  "emitted (onResolved opts n rs s)
     = emitted (snd (eachKey opts rs 0 (batchKeys (pipelinePromises s ! n)) s))"
  by (simp_all add: onResolved_def Let_def)

lemma onRejected_frame [simp]:
  "atSelectLimit (onRejected n s) = atSelectLimit s"
  "streamKeysScanned (onRejected n s) = streamKeysScanned s"
  "streamKeysSelected (onRejected n s) = streamKeysSelected s"
  "endScanCalled (onRejected n s) = endScanCalled s"
  "awaiting (onRejected n s) = awaiting s"
  "errorEmitted (onRejected n s) = errorEmitted s"
  "paused (onRejected n s) = paused s"
  "ended (onRejected n s) = ended s"
  "pagesRequested (onRejected n s) = pagesRequested s"
  "emitted (onRejected n s) = emitted s"
  "length (pipelinePromises (onRejected n s)) = length (pipelinePromises s)"
  by (simp_all add: onRejected_def)

lemma onRedisError_frame [simp]:
  "atSelectLimit (onRedisError err s) = atSelectLimit s"
  "pipelinePromises (onRedisError err s) = pipelinePromises s"
  "streamKeysScanned (onRedisError err s) = streamKeysScanned s"
  "streamKeysSelected (onRedisError err s) = streamKeysSelected s"
  "endScanCalled (onRedisError err s) = endScanCalled s"
  "awaiting (onRedisError err s) = awaiting s"
  "paused (onRedisError err s) = paused s"
  "ended (onRedisError err s) = ended s"
  "pagesRequested (onRedisError err s) = pagesRequested s"
  by (simp_all add: onRedisError_def)

lemma promiseAll_frame [simp]:
  "atSelectLimit (promiseAll opts s) = atSelectLimit s"
  "pipelinePromises (promiseAll opts s) = pipelinePromises s"
  "streamKeysScanned (promiseAll opts s) = streamKeysScanned s"
  "streamKeysSelected (promiseAll opts s) = streamKeysSelected s"
  "endScanCalled (promiseAll opts s) = endScanCalled s"
  "errorEmitted (promiseAll opts s) = errorEmitted s"
  "paused (promiseAll opts s) = paused s"
  "ended (promiseAll opts s) = ended s"
  "pagesRequested (promiseAll opts s) = pagesRequested s"
  by (simp_all add: promiseAll_def)

lemma onKey_emitted:
  "\<exists>es. emitted (onKey opts k idle t s) = emitted s @ es \<and> list_all isEntry es
     \<and> streamKeysSelected (onKey opts k idle t s) = streamKeysSelected s + length es"
  by (simp add: onKey_def)

lemma eachKey_emitted:
  "\<exists>es. emitted (snd (eachKey opts rs i ks s)) = emitted s @ es \<and> list_all isEntry es
     \<and> streamKeysSelected (snd (eachKey opts rs i ks s)) = streamKeysSelected s + length es"
proof (induction ks arbitrary: i s)
  case Nil
  show ?case by simp
next
  case (Cons k ks)
  have step: "\<exists>es. emitted (snd (eachKey opts rs j ks (onKey opts k idle t s))) = emitted s @ es
        \<and> list_all isEntry es
        \<and> streamKeysSelected (snd (eachKey opts rs j ks (onKey opts k idle t s)))
            = streamKeysSelected s + length es" for j idle t
  proof -
    obtain es1 where e1: "emitted (onKey opts k idle t s) = emitted s @ es1" "list_all isEntry es1"
      "streamKeysSelected (onKey opts k idle t s) = streamKeysSelected s + length es1"
      using onKey_emitted by blast
    obtain es2 where e2: "emitted (snd (eachKey opts rs j ks (onKey opts k idle t s)))
          = emitted (onKey opts k idle t s) @ es2" "list_all isEntry es2"
      "streamKeysSelected (snd (eachKey opts rs j ks (onKey opts k idle t s)))
          = streamKeysSelected (onKey opts k idle t s) + length es2"
      using Cons.IH by blast
    show ?thesis
      by (rule exI [of _ "es1 @ es2"]) (simp add: e1 e2)
  qed
  show ?case
    using step by (auto simp: Let_def split: option.splits intro: exI [of _ "[]"])
qed

subsection \<open>The callback of \<^verbatim>\<open>Promise.all\<close>\<close>

lemma fulfilledUpTo_all:
  "fulfilledUpTo s (length (pipelinePromises s)) = allFulfilled s"
  by (simp add: fulfilledUpTo_def allFulfilled_def)

lemma promiseAll_none: "awaiting s = [] \<Longrightarrow> promiseAll opts s = s"
  by (simp add: promiseAll_def)

lemma promiseAll_wait:
  "awaiting s = [n] \<Longrightarrow> \<not> fulfilledUpTo s n \<Longrightarrow> promiseAll opts s = s"
  by (simp add: promiseAll_def)

lemma promiseAll_fire:
  "awaiting s = [n] \<Longrightarrow> fulfilledUpTo s n \<Longrightarrow>
   promiseAll opts s =
     s\<lparr> awaiting := [],
        emitted := emitted s @
          [DataSummary (streamKeysScanned s) (streamKeysSelected s) opts, EndEvent] \<rparr>"
  by (simp add: promiseAll_def)

lemma promiseAll_emitted:
  "\<exists>xs. emitted (promiseAll opts s) = emitted s @ xs
     \<and> list_all (\<lambda>e. \<not> isEntry e \<and> \<not> isError e) xs"
proof -
  have "list_all (\<lambda>e. \<not> isEntry e \<and> \<not> isError e)
      (concat (map (\<lambda>n. [DataSummary a b opts, EndEvent]) ns))" for a b ns
    by (induction ns) simp_all
  then show ?thesis
    by (simp add: promiseAll_def)
qed

lemma filter_none: "list_all (\<lambda>e. \<not> P e) xs \<Longrightarrow> filter P xs = []"
  by (induction xs) simp_all

lemma promiseAll_errors:
  "filter isError (emitted (promiseAll opts s)) = filter isError (emitted s)"
proof -
  obtain xs where "emitted (promiseAll opts s) = emitted s @ xs"
      "list_all (\<lambda>e. \<not> isEntry e \<and> \<not> isError e) xs"
    using promiseAll_emitted by blast
  then show ?thesis
    by (simp add: filter_none list_all_iff)
qed

lemma promiseAll_entries:
  "filter isEntry (emitted (promiseAll opts s)) = filter isEntry (emitted s)"
proof -
  obtain xs where "emitted (promiseAll opts s) = emitted s @ xs"
      "list_all (\<lambda>e. \<not> isEntry e \<and> \<not> isError e) xs"
    using promiseAll_emitted by blast
  then show ?thesis
    by (simp add: filter_none list_all_iff)
qed

subsection \<open>The latch of \<^verbatim>\<open>endScan\<close>\<close>

lemma allFulfilled_snoc_pending:
  "\<not> list_all (\<lambda>p. status p = Fulfilled)
       (ps @ [\<lparr> batchKeys = b, commands = c, status = Pending \<rparr>])"
  by simp

lemma pending_not_allFulfilled:
  "n < length (pipelinePromises s) \<Longrightarrow> status (pipelinePromises s ! n) \<noteq> Fulfilled
     \<Longrightarrow> \<not> allFulfilled s"
  by (auto simp: allFulfilled_def list_all_length)

lemma foldl_invariant:
  assumes "P s" and "\<And>s e. P s \<Longrightarrow> P (step opts s e)"
  shows "P (foldl (step opts) s evs)"
  using assms(1) by (induction evs arbitrary: s) (simp_all add: assms(2))

lemma scanInv_initial: "scanInv initialState"
  by (simp add: scanInv_def initialState_def)

lemma scanInv_promiseAll:
  assumes "endScanCalled s" and "paused s \<or> ended s"
    and "awaiting s = [length (pipelinePromises s)]"
  shows "scanInv (promiseAll opts s)"
proof (cases "allFulfilled s")
  case True
  then have "promiseAll opts s = s\<lparr> awaiting := [],
        emitted := emitted s @
          [DataSummary (streamKeysScanned s) (streamKeysSelected s) opts, EndEvent] \<rparr>"
    using assms(3) by (simp add: promiseAll_fire fulfilledUpTo_all)
  then show ?thesis
    using True assms(1,2) by (simp add: scanInv_def allFulfilled_def)
next
  case False
  then have "promiseAll opts s = s"
    using assms(3) by (simp add: promiseAll_wait fulfilledUpTo_all)
  then show ?thesis
    using False assms by (simp add: scanInv_def)
qed

lemma scanInv_idle:
  assumes "scanInv s" and "pipelinePromises s' = pipelinePromises s"
    and "endScanCalled s' = endScanCalled s" and "awaiting s' = awaiting s"
    and "paused s' = paused s" and "ended s' = ended s"
  shows "scanInv s'"
  using assms by (simp add: scanInv_def allFulfilled_def)

lemma scanInv_step:
  assumes inv: "scanInv s"
  shows "scanInv (step opts s e)"
proof (cases e)
  case (Page batch)
  show ?thesis
  proof (cases "paused s \<or> ended s")
    case True
    then show ?thesis using Page inv by simp
  next
    case False
    then have idle: "\<not> endScanCalled s" "awaiting s = []"
      using inv by (auto simp: scanInv_def split: if_splits)
    let ?s0 = "s\<lparr> pagesRequested := pagesRequested s + 1 \<rparr>"
    show ?thesis
    proof (cases "atSelectLimit s
        \<or> reached (streamKeysScanned s + length batch) (scanLimit opts)")
      case True
      have "scanInv (promiseAll opts (onData opts batch ?s0))"
        by (rule scanInv_promiseAll) (use True idle in \<open>simp_all add: onData_def endScan_def\<close>)
      then show ?thesis using Page False by simp
    next
      case no: False
      have "onData opts batch ?s0 = ?s0\<lparr> streamKeysScanned := streamKeysScanned s + length batch,
          pipelinePromises := pipelinePromises s @
            [\<lparr> batchKeys = batch, commands = pipelineCommands opts batch, status = Pending \<rparr>] \<rparr>"
        using no by (simp add: onData_def)
      then have "scanInv (onData opts batch ?s0)"
        using idle False by (simp add: scanInv_def)
      moreover have "promiseAll opts (onData opts batch ?s0) = onData opts batch ?s0"
        by (rule promiseAll_none) (use no idle in \<open>simp add: onData_def\<close>)
      ultimately show ?thesis using Page False by simp
    qed
  qed
next
  case ReadAhead
  have "scanInv (s\<lparr> pagesRequested := pagesRequested s + 1 \<rparr>)"
    by (rule scanInv_idle [OF inv]) simp_all
  then show ?thesis using ReadAhead inv by simp
next
  case StreamEnd
  show ?thesis
  proof (cases "ended s")
    case True
    then show ?thesis using StreamEnd inv by simp
  next
    case False
    let ?s1 = "endScan (s\<lparr> ended := True \<rparr>)"
    show ?thesis
    proof (cases "endScanCalled s")
      case True
      then have e: "?s1 = s\<lparr> ended := True \<rparr>"
        by (simp add: endScan_def)
      show ?thesis
      proof (cases "allFulfilled s")
        case True
        then have "awaiting s = []"
          using inv \<open>endScanCalled s\<close> by (simp add: scanInv_def)
        then have "promiseAll opts ?s1 = s\<lparr> ended := True \<rparr>"
          unfolding e by (simp add: promiseAll_none)
        moreover have "scanInv (s\<lparr> ended := True \<rparr>)"
          using inv \<open>endScanCalled s\<close> by (simp add: scanInv_def allFulfilled_def)
        ultimately show ?thesis using StreamEnd False by simp
      next
        case nf: False
        then have "awaiting s = [length (pipelinePromises s)]"
          using inv \<open>endScanCalled s\<close> by (simp add: scanInv_def)
        then have "scanInv (promiseAll opts ?s1)"
          unfolding e using \<open>endScanCalled s\<close> by (intro scanInv_promiseAll) simp_all
        then show ?thesis using StreamEnd False by simp
      qed
    next
      case nc: False
      then have "awaiting s = []"
        using inv by (simp add: scanInv_def)
      then have "scanInv (promiseAll opts ?s1)"
        using nc by (intro scanInv_promiseAll) (simp_all add: endScan_def)
      then show ?thesis using StreamEnd False by simp
    qed
  qed
next
  case (Resolved n rs)
  show ?thesis
  proof (cases "n < length (pipelinePromises s) \<and> status (pipelinePromises s ! n) = Pending")
    case False
    then show ?thesis using Resolved inv by auto
  next
    case True
    then have nf: "\<not> allFulfilled s"
      using pending_not_allFulfilled [of n s] by simp
    show ?thesis
    proof (cases "endScanCalled s")
      case True
      then have "paused s \<or> ended s" "awaiting s = [length (pipelinePromises s)]"
        using inv nf by (simp_all add: scanInv_def)
      then have "scanInv (promiseAll opts (onResolved opts n rs s))"
        using True by (intro scanInv_promiseAll) simp_all
      then show ?thesis using Resolved \<open>n < _ \<and> _\<close> by simp
    next
      case False
      then have "awaiting s = []" "\<not> paused s" "\<not> ended s"
        using inv by (simp_all add: scanInv_def)
      then have "scanInv (onResolved opts n rs s)"
        using False by (simp add: scanInv_def)
      moreover have "promiseAll opts (onResolved opts n rs s) = onResolved opts n rs s"
        by (rule promiseAll_none) (simp add: \<open>awaiting s = []\<close>)
      ultimately show ?thesis using Resolved True by simp
    qed
  qed
next
  case (Failed n)
  show ?thesis
  proof (cases "n < length (pipelinePromises s) \<and> status (pipelinePromises s ! n) = Pending")
    case False
    then show ?thesis using Failed inv by auto
  next
    case True
    then have nf: "\<not> allFulfilled s"
      using pending_not_allFulfilled [of n s] by simp
    have nf': "\<not> allFulfilled (onRejected n s)"
      by (rule pending_not_allFulfilled [of n]) (use True in \<open>simp_all add: onRejected_def\<close>)
    have "scanInv (onRejected n s)"
      using inv nf nf' by (simp add: scanInv_def)
    then show ?thesis using Failed True by simp
  qed
next
  case (RedisError err)
  have "scanInv (onRedisError err s)"
    by (rule scanInv_idle [OF inv]) simp_all
  then show ?thesis using RedisError by simp
qed

lemma scanInv_run: "scanInv (run opts evs)"
  unfolding run_def by (rule foldl_invariant [OF scanInv_initial scanInv_step])

subsection \<open>The order of the emissions\<close>

lemma summaryWritten_iff:
  assumes "scanInv s"
  shows "summaryWritten s \<longleftrightarrow> (paused s \<or> ended s) \<and> allFulfilled s"
  using assms by (auto simp: scanInv_def summaryWritten_def split: if_splits)

lemma scanInv_latched:
  assumes "scanInv s"
  shows "awaiting s = [] \<or> (endScanCalled s \<and> awaiting s = [length (pipelinePromises s)])"
  using assms by (auto simp: scanInv_def split: if_splits)

lemma promiseAll_shape:
  assumes "list_all plain (emitted s)" and "\<not> summaryWritten s"
    and "awaiting s = [] \<or> (endScanCalled s \<and> awaiting s = [length (pipelinePromises s)])"
  shows "emittedShape opts (promiseAll opts s)"
proof (cases "awaiting s = []")
  case True
  then show ?thesis
    using assms(1,2) by (simp add: promiseAll_none emittedShape_def)
next
  case False
  then have c: "endScanCalled s" and a: "awaiting s = [length (pipelinePromises s)]"
    using assms(3) by simp_all
  show ?thesis
  proof (cases "allFulfilled s")
    case False
    then show ?thesis
      using a assms(1,2) by (simp add: promiseAll_wait fulfilledUpTo_all emittedShape_def)
  next
    case True
    let ?s' = "promiseAll opts s"
    have eq: "?s' = s\<lparr> awaiting := [],
        emitted := emitted s @
          [DataSummary (streamKeysScanned s) (streamKeysSelected s) opts, EndEvent] \<rparr>"
      using a True by (simp add: promiseAll_fire fulfilledUpTo_all)
    have w: "summaryWritten ?s'"
      using c by (simp add: eq summaryWritten_def)
    have "emitted ?s' = emitted s @
        [DataSummary (streamKeysScanned ?s') (streamKeysSelected ?s') opts, EndEvent] @ []"
      by (simp add: eq)
    then have "\<exists>pre post. emitted ?s' =
        pre @ [DataSummary (streamKeysScanned ?s') (streamKeysSelected ?s') opts, EndEvent] @ post
        \<and> list_all plain pre \<and> list_all isError post"
      using assms(1) by (intro exI [of _ "emitted s"] exI [of _ "[]"]) simp
    then show ?thesis
      using w unfolding emittedShape_def by simp
  qed
qed

lemma eachKey_plain:
  "list_all plain (emitted s) \<Longrightarrow> list_all plain (emitted (snd (eachKey opts rs i ks s)))"
proof -
  assume a: "list_all plain (emitted s)"
  obtain es where "emitted (snd (eachKey opts rs i ks s)) = emitted s @ es" "list_all isEntry es"
    using eachKey_emitted by blast
  then show ?thesis using a by (auto simp: list_all_iff plain_def)
qed

lemma emittedShape_initial: "emittedShape opts initialState"
  by (simp add: emittedShape_def initialState_def summaryWritten_def)

lemma emittedShape_cong:
  assumes "emittedShape opts s" and "emitted s' = emitted s"
    and "streamKeysScanned s' = streamKeysScanned s"
    and "streamKeysSelected s' = streamKeysSelected s"
    and "endScanCalled s' = endScanCalled s" and "awaiting s' = awaiting s"
  shows "emittedShape opts s'"
proof -
  have w: "summaryWritten s' = summaryWritten s"
    using assms(5,6) by (simp add: summaryWritten_def)
  show ?thesis
    using assms(1) unfolding emittedShape_def w assms(2) assms(3) assms(4) .
qed

lemma emittedShape_step_written:
  assumes inv: "scanInv s" and sh: "emittedShape opts s" and fin: "summaryWritten s"
  shows "emittedShape opts (step opts s e)"
proof -
  have st: "paused s \<or> ended s" "allFulfilled s" "endScanCalled s" "awaiting s = []"
    using fin summaryWritten_iff [OF inv] by (simp_all add: summaryWritten_def)
  have settled: "m < length (pipelinePromises s) \<Longrightarrow> status (pipelinePromises s ! m) = Fulfilled"
    for m using st(2) by (simp add: allFulfilled_def list_all_length)
  obtain pre post where pp: "emitted s =
      pre @ [DataSummary (streamKeysScanned s) (streamKeysSelected s) opts, EndEvent] @ post"
      "list_all plain pre" "list_all isError post"
    using sh fin unfolding emittedShape_def by auto
  show ?thesis
  proof (cases e)
    case (Page batch)
    then show ?thesis using st(1) sh by simp
  next
    case ReadAhead
    have "emittedShape opts (s\<lparr> pagesRequested := pagesRequested s + 1 \<rparr>)"
      by (rule emittedShape_cong [OF sh]) simp_all
    then show ?thesis using ReadAhead sh by simp
  next
    case StreamEnd
    have "promiseAll opts (endScan (s\<lparr> ended := True \<rparr>)) = s\<lparr> ended := True \<rparr>"
      using st(3,4) by (simp add: endScan_def promiseAll_none)
    moreover have "emittedShape opts (s\<lparr> ended := True \<rparr>)"
      by (rule emittedShape_cong [OF sh]) simp_all
    ultimately show ?thesis using StreamEnd sh by simp
  next
    case (Resolved m rs)
    then show ?thesis using settled [of m] sh by auto
  next
    case (Failed m)
    then show ?thesis using settled [of m] sh by auto
  next
    case (RedisError err)
    show ?thesis
    proof (cases "errorEmitted s")
      case True
      then show ?thesis using RedisError sh by (simp add: onRedisError_def)
    next
      case False
      let ?s' = "step opts s e"
      have w: "summaryWritten ?s'"
        using RedisError fin by (simp add: summaryWritten_def)
      have "emitted ?s' =
        pre @ [DataSummary (streamKeysScanned ?s') (streamKeysSelected ?s') opts, EndEvent]
          @ (post @ [ErrorEvent err])"
        using False RedisError pp(1) by (simp add: onRedisError_def)
      moreover have "list_all isError (post @ [ErrorEvent err])"
        using pp(3) by simp
      ultimately have "\<exists>pre post. emitted ?s' =
          pre @ [DataSummary (streamKeysScanned ?s') (streamKeysSelected ?s') opts, EndEvent]
            @ post
          \<and> list_all plain pre \<and> list_all isError post"
        using pp(2) by blast
      then show ?thesis using w unfolding emittedShape_def by simp
    qed
  qed
qed

lemma emittedShape_step:
  assumes inv: "scanInv s" and sh: "emittedShape opts s"
  shows "emittedShape opts (step opts s e)"
proof (cases "summaryWritten s")
  case True
  with inv sh show ?thesis by (rule emittedShape_step_written)
next
  case False
  then have pl: "list_all plain (emitted s)"
    using sh by (simp add: emittedShape_def)
  note la = scanInv_latched [OF inv]
  show ?thesis
  proof (cases e)
    case (Page batch)
    show ?thesis
    proof (cases "paused s \<or> ended s")
      case True
      then show ?thesis using Page sh by simp
    next
      case active: False
      then have idle: "\<not> endScanCalled s" "awaiting s = []"
        using inv by (auto simp: scanInv_def split: if_splits)
      let ?s1 = "onData opts batch (s\<lparr> pagesRequested := pagesRequested s + 1 \<rparr>)"
      have "emittedShape opts (promiseAll opts ?s1)"
      proof (rule promiseAll_shape)
        show "list_all plain (emitted ?s1)" using pl by simp
        show "\<not> summaryWritten ?s1"
          using idle by (simp add: summaryWritten_def onData_def endScan_def Let_def)
        show "awaiting ?s1 = []
            \<or> (endScanCalled ?s1 \<and> awaiting ?s1 = [length (pipelinePromises ?s1)])"
          using idle by (simp add: onData_def endScan_def Let_def)
      qed
      then show ?thesis using Page active by simp
    qed
  next
    case ReadAhead
    have "emittedShape opts (s\<lparr> pagesRequested := pagesRequested s + 1 \<rparr>)"
      by (rule emittedShape_cong [OF sh]) simp_all
    then show ?thesis using ReadAhead sh by simp
  next
    case StreamEnd
    let ?s1 = "endScan (s\<lparr> ended := True \<rparr>)"
    have "emittedShape opts (promiseAll opts ?s1)"
    proof (rule promiseAll_shape)
      show "list_all plain (emitted ?s1)" using pl by simp
      show "\<not> summaryWritten ?s1"
        using False by (auto simp: summaryWritten_def endScan_def)
      show "awaiting ?s1 = []
          \<or> (endScanCalled ?s1 \<and> awaiting ?s1 = [length (pipelinePromises ?s1)])"
        using la by (auto simp: endScan_def)
    qed
    then show ?thesis using StreamEnd sh by simp
  next
    case (Resolved m rs)
    let ?s1 = "onResolved opts m rs s"
    have "emittedShape opts (promiseAll opts ?s1)"
    proof (rule promiseAll_shape)
      show "list_all plain (emitted ?s1)"
        using pl by (simp add: onResolved_selection eachKey_plain)
      show "\<not> summaryWritten ?s1"
        using False by (simp add: summaryWritten_def)
      show "awaiting ?s1 = []
          \<or> (endScanCalled ?s1 \<and> awaiting ?s1 = [length (pipelinePromises ?s1)])"
        using la by simp
    qed
    then show ?thesis using Resolved sh by simp
  next
    case (Failed m)
    have "emittedShape opts (onRejected m s)"
      by (rule emittedShape_cong [OF sh]) simp_all
    then show ?thesis using Failed sh by simp
  next
    case (RedisError err)
    have "list_all plain (emitted (onRedisError err s))"
      using pl by (simp add: onRedisError_def plain_def)
    moreover have "\<not> summaryWritten (onRedisError err s)"
      using False by (simp add: summaryWritten_def)
    ultimately show ?thesis using RedisError
      by (simp add: emittedShape_def)
  qed
qed

lemma invs_run: "scanInv (run opts evs) \<and> emittedShape opts (run opts evs)"
proof -
  have "scanInv (foldl (step opts) s evs) \<and> emittedShape opts (foldl (step opts) s evs)"
    if "scanInv s \<and> emittedShape opts s" for s
    using that
    by (induction evs arbitrary: s) (simp_all add: scanInv_step emittedShape_step)
  then show ?thesis
    unfolding run_def using scanInv_initial emittedShape_initial by blast
qed

subsection \<open>The scanned counter and the summary\<close>

lemma run_snoc: "run opts (evs @ [e]) = step opts (run opts evs) e"
  by (simp add: run_def)

lemma run_append: "run opts (evs @ evs2) = foldl (step opts) (run opts evs) evs2"
  by (simp add: run_def)

lemma map_update_same:
  "f x = f (xs ! n) \<Longrightarrow> map f (xs[n := x]) = map f xs"
  by (induction xs arbitrary: n) (auto split: nat.splits)

lemma onData_pages:
  "map batchKeys (pipelinePromises (onData opts batch s))
     = map batchKeys (pipelinePromises s) @ [batch]"
  by (simp add: onData_def Let_def)

lemma onResolved_pages:
  "map batchKeys (pipelinePromises (onResolved opts n rs s)) = map batchKeys (pipelinePromises s)"
  by (simp add: onResolved_def Let_def map_update_same)

lemma onRejected_pages:
  "map batchKeys (pipelinePromises (onRejected n s)) = map batchKeys (pipelinePromises s)"
  by (simp add: onRejected_def map_update_same)

lemma dispatchedKeys_pages:
  "dispatchedKeys s = sum_list (map length (map batchKeys (pipelinePromises s)))"
  by (simp add: dispatchedKeys_def comp_def)

lemma step_pages:
  "map batchKeys (pipelinePromises (step opts s e)) =
     map batchKeys (pipelinePromises s) @
       (case e of Page batch \<Rightarrow> if paused s \<or> ended s then [] else [batch] | _ \<Rightarrow> [])"
  by (cases e) (simp_all add: onData_pages onResolved_pages onRejected_pages)

lemma step_scanned:
  "streamKeysScanned (step opts s e) =
     streamKeysScanned s +
       (case e of Page batch \<Rightarrow> if paused s \<or> ended s then 0 else length batch | _ \<Rightarrow> 0)"
  by (cases e) simp_all

lemma scanned_step:
  assumes "streamKeysScanned s = dispatchedKeys s"
  shows "streamKeysScanned (step opts s e) = dispatchedKeys (step opts s e)"
proof -
  have "dispatchedKeys (step opts s e)
      = sum_list (map length (map batchKeys (pipelinePromises (step opts s e))))"
    by (simp only: dispatchedKeys_pages)
  also have "\<dots> = dispatchedKeys s +
      (case e of Page batch \<Rightarrow> if paused s \<or> ended s then 0 else length batch | _ \<Rightarrow> 0)"
    unfolding step_pages by (cases e) (simp_all add: dispatchedKeys_pages)
  finally show ?thesis
    using assms by (simp add: step_scanned)
qed

lemma scanned_run: "streamKeysScanned (run opts evs) = dispatchedKeys (run opts evs)"
  unfolding run_def
  by (rule foldl_invariant) (simp_all add: initialState_def dispatchedKeys_def scanned_step)

lemma scanned_mono: "streamKeysScanned s \<le> streamKeysScanned (foldl (step opts) s evs)"
proof (induction evs arbitrary: s)
  case Nil
  show ?case by simp
next
  case (Cons e evs)
  have "streamKeysScanned s \<le> streamKeysScanned (step opts s e)"
    by (simp add: step_scanned)
  also have "\<dots> \<le> streamKeysScanned (foldl (step opts) (step opts s e) evs)"
    by (rule Cons.IH)
  finally show ?case by simp
qed

lemma summary_in_emitted:
  assumes "emittedShape opts s" and "DataSummary a b c \<in> set (emitted s)"
  shows "summaryWritten s \<and> a = streamKeysScanned s \<and> b = streamKeysSelected s \<and> c = opts"
proof (cases "summaryWritten s")
  case False
  then have "list_all plain (emitted s)"
    using assms(1) by (simp add: emittedShape_def)
  then have "plain (DataSummary a b c)"
    using assms(2) by (simp add: list_all_iff)
  then show ?thesis by (simp add: plain_def)
next
  case True
  then obtain pre post where pp: "emitted s =
      pre @ [DataSummary (streamKeysScanned s) (streamKeysSelected s) opts, EndEvent] @ post"
      "list_all plain pre" "list_all isError post"
    using assms(1) unfolding emittedShape_def by auto
  have "\<not> plain (DataSummary a b c)" "\<not> isError (DataSummary a b c)"
    by (simp_all add: plain_def)
  then have "DataSummary a b c \<notin> set pre" "DataSummary a b c \<notin> set post"
    using pp(2,3) by (auto simp: list_all_iff)
  then show ?thesis using assms(2) True pp(1) by auto
qed

lemma end_in_emitted:
  assumes "emittedShape opts s"
  shows "EndEvent \<in> set (emitted s) \<longleftrightarrow> summaryWritten s"
proof (cases "summaryWritten s")
  case False
  then have "list_all plain (emitted s)"
    using assms by (simp add: emittedShape_def)
  moreover have "\<not> plain EndEvent"
    by (simp add: plain_def)
  ultimately show ?thesis
    using False by (auto simp: list_all_iff)
next
  case True
  then show ?thesis
    using assms unfolding emittedShape_def by auto
qed

lemma plain_not_summary: "list_all plain xs \<Longrightarrow> list_all (\<lambda>e. \<not> isSummary e) xs"
  by (induction xs) (auto simp: plain_def elim: isEntry.elims isError.elims)

lemma error_not_summary: "list_all isError xs \<Longrightarrow> list_all (\<lambda>e. \<not> isSummary e) xs"
  by (induction xs) (auto elim: isError.elims)

lemma summaries_of_shape:
  assumes "emittedShape opts s"
  shows "filter isSummary (emitted s) =
     (if summaryWritten s
      then [DataSummary (streamKeysScanned s) (streamKeysSelected s) opts] else [])"
proof (cases "summaryWritten s")
  case False
  then show ?thesis
    using assms by (simp add: emittedShape_def filter_none plain_not_summary)
next
  case True
  then obtain pre post where pp: "emitted s =
      pre @ [DataSummary (streamKeysScanned s) (streamKeysSelected s) opts, EndEvent] @ post"
      "list_all plain pre" "list_all isError post"
    using assms unfolding emittedShape_def by auto
  show ?thesis
    using True pp by (simp add: filter_none plain_not_summary error_not_summary)
qed

subsection \<open>Errors, and the end of a scan\<close>

lemmas scan_defs =
  run_def initialState_def onData_def endScan_def promiseAll_def fulfilledUpTo_def
  onResolved_def onRejected_def onRedisError_def onKey_def keyMatches_def checkTTL_def
  reply_def pipelineCommands_def redisDescription_def ok_def failed_def Let_def

lemma redisErrors_append: "redisErrors (xs @ ys) = redisErrors xs @ redisErrors ys"
  by (induction xs rule: redisErrors.induct) simp_all

lemma entries_not_errors: "list_all isEntry xs \<Longrightarrow> filter isError xs = []"
  by (induction xs) (auto elim: isEntry.elims)

lemma eachKey_errors:
  "filter isError (emitted (snd (eachKey opts rs i ks s))) = filter isError (emitted s)"
proof -
  obtain es where "emitted (snd (eachKey opts rs i ks s)) = emitted s @ es" "list_all isEntry es"
    using eachKey_emitted by blast
  then show ?thesis by (simp add: entries_not_errors)
qed

lemma step_errors:
  "filter isError (emitted (step opts s e)) = filter isError (emitted s) @
     (case e of RedisError err \<Rightarrow> if errorEmitted s then [] else [ErrorEvent err] | _ \<Rightarrow> [])"
  by (cases e)
     (simp_all add: promiseAll_errors onResolved_selection eachKey_errors onRedisError_def)

lemma step_errorEmitted:
  "errorEmitted (step opts s e) = (errorEmitted s \<or> (case e of RedisError err \<Rightarrow> True | _ \<Rightarrow> False))"
  by (cases e) (simp_all add: onRedisError_def)

lemma errors_run:
  "filter isError (emitted (run opts evs)) = map ErrorEvent (take 1 (redisErrors evs))
   \<and> errorEmitted (run opts evs) = (redisErrors evs \<noteq> [])"
proof (induction evs rule: rev_induct)
  case Nil
  show ?case by (simp add: run_def initialState_def)
next
  case (snoc e evs)
  have a: "filter isError (emitted (run opts (evs @ [e]))) =
      map ErrorEvent (take 1 (redisErrors evs)) @
      (case e of RedisError err \<Rightarrow> if redisErrors evs \<noteq> [] then [] else [ErrorEvent err]
       | _ \<Rightarrow> [])"
    unfolding run_snoc step_errors using snoc by (simp split: event.splits)
  have b: "errorEmitted (run opts (evs @ [e])) =
      (redisErrors evs \<noteq> [] \<or> (case e of RedisError err \<Rightarrow> True | _ \<Rightarrow> False))"
    unfolding run_snoc step_errorEmitted using snoc by simp
  show ?case
    unfolding a b by (cases e; cases "redisErrors evs") (simp_all add: redisErrors_append)
qed

lemma all_entries_map: "list_all isEntry xs \<Longrightarrow> \<exists>es. xs = map DataEntry es"
proof (induction xs)
  case Nil
  show ?case by simp
next
  case (Cons x xs)
  then obtain es where "xs = map DataEntry es" by auto
  moreover obtain e where "x = DataEntry e"
    using Cons.prems by (cases x) simp_all
  ultimately have "x # xs = map DataEntry (e # es)" by simp
  then show ?case by (rule exI)
qed

lemma plain_without_errors:
  "list_all plain xs \<Longrightarrow> filter isError xs = [] \<Longrightarrow> list_all isEntry xs"
  by (induction xs) (auto simp: plain_def split: if_splits)

lemma errors_empty: "list_all isError xs \<Longrightarrow> filter isError xs = [] \<Longrightarrow> xs = []"
  by (induction xs) (auto split: if_splits)

text \<open>
  C2.  Every scan emits at most one summary record, also when a limit is hit and the stream
  ends as well.  A scan completes (it emits \<^verbatim>\<open>'end'\<close>) exactly when its stream has been paused
  or has ended and every dispatched batch is fulfilled.  It has then emitted exactly one
  summary, with the final counters and the options; every selected-key record comes before
  it, and after it come the end and nothing else but a connection error.  When the connection
  reported no error, the emissions are the selected-key records, then the summary, then the
  end.
\<close>

theorem summary_once_after_entries:
  "length (filter isSummary (emitted (run opts evs))) \<le> 1
   \<and> (EndEvent \<in> set (emitted (run opts evs)) \<longleftrightarrow>
        (paused (run opts evs) \<or> ended (run opts evs))
      \<and> list_all (\<lambda>p. status p = Fulfilled) (pipelinePromises (run opts evs)))
   \<and> ((paused (run opts evs) \<or> ended (run opts evs))
        \<and> list_all (\<lambda>p. status p = Fulfilled) (pipelinePromises (run opts evs)) \<longrightarrow>
        length (filter isSummary (emitted (run opts evs))) = 1
      \<and> (\<exists>pre post. emitted (run opts evs) =
            pre @ [DataSummary (streamKeysScanned (run opts evs))
                     (streamKeysSelected (run opts evs)) opts, EndEvent] @ post
          \<and> list_all (\<lambda>e. isEntry e \<or> isError e) pre \<and> list_all isError post)
      \<and> (redisErrors evs = [] \<longrightarrow>
           (\<exists>es. emitted (run opts evs) =
              map DataEntry es @ [DataSummary (streamKeysScanned (run opts evs))
                     (streamKeysSelected (run opts evs)) opts, EndEvent])))"
proof -
  let ?s = "run opts evs"
  have inv: "scanInv ?s" and sh: "emittedShape opts ?s"
    using invs_run by simp_all
  have one: "length (filter isSummary (emitted ?s)) \<le> 1"
    by (simp add: summaries_of_shape [OF sh])
  have live: "EndEvent \<in> set (emitted ?s) \<longleftrightarrow>
      (paused ?s \<or> ended ?s) \<and> list_all (\<lambda>p. status p = Fulfilled) (pipelinePromises ?s)"
    using end_in_emitted [OF sh] summaryWritten_iff [OF inv] by (simp add: allFulfilled_def)
  have fin: "length (filter isSummary (emitted ?s)) = 1
      \<and> (\<exists>pre post. emitted ?s =
            pre @ [DataSummary (streamKeysScanned ?s) (streamKeysSelected ?s) opts, EndEvent] @ post
          \<and> list_all (\<lambda>e. isEntry e \<or> isError e) pre \<and> list_all isError post)
      \<and> (redisErrors evs = [] \<longrightarrow>
           (\<exists>es. emitted ?s =
              map DataEntry es @ [DataSummary (streamKeysScanned ?s) (streamKeysSelected ?s) opts,
                 EndEvent]))"
    if e: "(paused ?s \<or> ended ?s)
      \<and> list_all (\<lambda>p. status p = Fulfilled) (pipelinePromises ?s)"
  proof -
    have w: "summaryWritten ?s"
      using e summaryWritten_iff [OF inv] by (simp add: allFulfilled_def)
    then obtain pre post where pp: "emitted ?s =
        pre @ [DataSummary (streamKeysScanned ?s) (streamKeysSelected ?s) opts, EndEvent] @ post"
        "list_all plain pre" "list_all isError post"
      using sh unfolding emittedShape_def by auto
    have a: "length (filter isSummary (emitted ?s)) = 1"
      using w by (simp add: summaries_of_shape [OF sh])
    have b: "list_all (\<lambda>e. isEntry e \<or> isError e) pre"
      using pp(2) by (simp add: plain_def [abs_def])
    have c: "\<exists>es. emitted ?s =
        map DataEntry es @ [DataSummary (streamKeysScanned ?s) (streamKeysSelected ?s) opts,
          EndEvent]" if "redisErrors evs = []"
    proof -
      have "filter isError (emitted ?s) = []"
        using that errors_run [of opts evs] by simp
      then have "filter isError pre = []" "filter isError post = []"
        using pp(1) by simp_all
      then have "list_all isEntry pre" "post = []"
        using pp(2,3) by (simp_all add: plain_without_errors errors_empty)
      then show ?thesis
        using pp(1) all_entries_map [of pre] by auto
    qed
    show ?thesis using a b c pp(1,3) by blast
  qed
  show ?thesis using one live fin by blast
qed

theorem summary_once_after_entries_witness:
  "paused (run scanLimitOptions raceEvents)
   \<and> list_all (\<lambda>p. status p = Fulfilled) (pipelinePromises (run scanLimitOptions raceEvents))
   \<and> redisErrors raceEvents = []
   \<and> EndEvent \<in> set (emitted (run scanLimitOptions raceEvents))
   \<and> length (filter isSummary (emitted (run scanLimitOptions raceEvents))) = 1
   \<and> (\<exists>es. emitted (run scanLimitOptions raceEvents) =
         map DataEntry es @ [DataSummary 2 2 scanLimitOptions, EndEvent])"
proof -
  have p: "paused (run scanLimitOptions raceEvents)"
    by (simp add: scan_defs raceEvents_def scanLimitOptions_def plainOptions_def)
  have f: "list_all (\<lambda>p. status p = Fulfilled)
      (pipelinePromises (run scanLimitOptions raceEvents))"
    by (simp add: scan_defs raceEvents_def scanLimitOptions_def plainOptions_def)
  have r: "redisErrors raceEvents = []"
    by (simp add: raceEvents_def)
  have c: "streamKeysScanned (run scanLimitOptions raceEvents) = 2"
    "streamKeysSelected (run scanLimitOptions raceEvents) = 2"
    by (simp_all add: scan_defs raceEvents_def scanLimitOptions_def plainOptions_def)
  show ?thesis
    using p f r summary_once_after_entries [of scanLimitOptions raceEvents] by (simp add: c)
qed

subsection \<open>The commands of a pipeline\<close>

lemma pipelineCommands_Ttl:
  "Ttl k \<in> set (pipelineCommands opts batch) \<longleftrightarrow> checkTTL opts \<and> k \<in> set batch"
  by (auto simp: pipelineCommands_def)

lemma pipelineCommands_ObjectIdletime:
  "ObjectIdletime k \<in> set (pipelineCommands opts batch) \<longleftrightarrow> k \<in> set batch"
  by (auto simp: pipelineCommands_def)

lemma pipelineCommands_length:
  "length (pipelineCommands opts batch) = (if checkTTL opts then 2 * length batch else length batch)"
  by (induction batch) (simp_all add: pipelineCommands_def)

lemma step_commands:
  "map (\<lambda>p. (batchKeys p, commands p)) (pipelinePromises (step opts s e)) =
     map (\<lambda>p. (batchKeys p, commands p)) (pipelinePromises s) @
       (case e of
          Page batch \<Rightarrow> if paused s \<or> ended s then [] else [(batch, pipelineCommands opts batch)]
        | _ \<Rightarrow> [])"
  by (cases e) (simp_all add: onData_def onResolved_def onRejected_def Let_def map_update_same)

lemma commands_step:
  assumes "\<forall>(b, c) \<in> set (map (\<lambda>p. (batchKeys p, commands p)) (pipelinePromises s)).
             c = pipelineCommands opts b"
  shows "\<forall>(b, c) \<in> set (map (\<lambda>p. (batchKeys p, commands p)) (pipelinePromises (step opts s e))).
             c = pipelineCommands opts b"
  unfolding step_commands using assms by (cases e) auto

lemma commands_run:
  "p \<in> set (pipelinePromises (run opts evs)) \<Longrightarrow> commands p = pipelineCommands opts (batchKeys p)"
proof -
  have "\<forall>(b, c) \<in> set (map (\<lambda>p. (batchKeys p, commands p)) (pipelinePromises (run opts evs))).
          c = pipelineCommands opts b"
    unfolding run_def
    by (rule foldl_invariant) (simp_all add: initialState_def commands_step)
  then show "p \<in> set (pipelinePromises (run opts evs))
      \<Longrightarrow> commands p = pipelineCommands opts (batchKeys p)"
    by auto
qed

subsection \<open>Failures\<close>

lemma reply_values:
  assumes "map snd rs = map snd rs'"
  shows "reply rs idx = reply rs' idx"
proof -
  have l: "length rs = length rs'"
    using assms by (metis length_map)
  have "snd (rs ! idx) = snd (rs' ! idx)" if "idx < length rs"
    using that assms l by (metis nth_map)
  then show ?thesis
    using l by (simp add: reply_def)
qed

lemma eachKey_values:
  assumes "map snd rs = map snd rs'"
  shows "eachKey opts rs i ks s = eachKey opts rs' i ks s"
proof -
  have r: "reply rs = reply rs'"
    by (rule ext) (rule reply_values [OF assms])
  show ?thesis
    by (induction ks arbitrary: i s) (simp_all add: r Let_def split: option.splits)
qed

lemma step_resolved_values:
  "step opts s (Resolved n rs) = step opts s (Resolved n (map (\<lambda>r. (None, snd r)) rs))"
proof -
  have "map snd rs = map snd (map (\<lambda>r. (None :: string option, snd r)) rs)"
    by (simp add: comp_def)
  then show ?thesis
    by (simp add: onResolved_def eachKey_values [of rs "map (\<lambda>r. (None, snd r)) rs"])
qed

lemma eachKey_fulfils:
  "(if checkTTL opts then 2 * (i + length ks) else i + length ks) \<le> length rs
     \<Longrightarrow> fst (eachKey opts rs i ks s) = Fulfilled"
  by (induction ks arbitrary: i s) (auto simp: reply_def Let_def)

lemma resolved_fulfils:
  assumes "n < length (pipelinePromises s)"
    and "(if checkTTL opts then 2 * length (batchKeys (pipelinePromises s ! n))
          else length (batchKeys (pipelinePromises s ! n))) \<le> length rs"
  shows "status (pipelinePromises (onResolved opts n rs s) ! n) = Fulfilled"
proof -
  have "fst (eachKey opts rs 0 (batchKeys (pipelinePromises s ! n)) s) = Fulfilled"
    by (rule eachKey_fulfils) (use assms(2) in auto)
  then show ?thesis
    using assms(1) by (simp add: onResolved_def Let_def)
qed

lemma scanInv_rejected:
  assumes "scanInv s" and "Rejected \<in> status ` set (pipelinePromises s)"
  shows "\<not> summaryWritten s"
proof
  assume "summaryWritten s"
  then have "list_all (\<lambda>p. status p = Fulfilled) (pipelinePromises s)"
    using summaryWritten_iff [OF assms(1)] by (simp add: allFulfilled_def)
  then show False
    using assms(2) by (auto simp: list_all_iff)
qed

lemma unwritten_emitted:
  assumes "emittedShape opts s" and "\<not> summaryWritten s"
  shows "\<not> list_ex isSummary (emitted s) \<and> EndEvent \<notin> set (emitted s)"
proof -
  have pl: "list_all plain (emitted s)"
    using assms by (simp add: emittedShape_def)
  have "list_all (\<lambda>e. \<not> isSummary e) (emitted s)"
    using pl by (rule plain_not_summary)
  then have a: "\<not> list_ex isSummary (emitted s)"
    by (simp add: list_all_iff list_ex_iff)
  have b: "EndEvent \<notin> set (emitted s)"
    using assms by (simp add: end_in_emitted)
  show ?thesis using a b by simp
qed

lemma step_failed_emitted: "emitted (step opts s (Failed n)) = emitted s"
  by simp

text \<open>
  C6 (amended).  A failure of a batched metadata request goes unnoticed.  When commands of a
  batch fail, the batch's promise is fulfilled all the same: the error half of a reply is never
  read (a run is the same with the errors blanked out), the keys are filtered on the values
  alone, and the scan goes on to its summary.  Were the batch's promise itself rejected, no
  summary and no end would be emitted, and nothing would be emitted for the failure.  The
  scanner emits an error only when the store connection reports one, and then only the first
  one; every scan emits at most one summary and at most one error.
\<close>

theorem failed_batch_goes_unnoticed:
  "run opts (evs @ [Resolved n rs]) = run opts (evs @ [Resolved n (map (\<lambda>r. (None, snd r)) rs)])
   \<and> (n < length (pipelinePromises (run opts evs))
        \<and> status (pipelinePromises (run opts evs) ! n) = Pending
        \<and> length (commands (pipelinePromises (run opts evs) ! n)) \<le> length rs \<longrightarrow>
        status (pipelinePromises (run opts (evs @ [Resolved n rs])) ! n) = Fulfilled)
   \<and> (Rejected \<in> status ` set (pipelinePromises (run opts evs)) \<longrightarrow>
      \<not> list_ex isSummary (emitted (run opts evs)) \<and> EndEvent \<notin> set (emitted (run opts evs)))
   \<and> emitted (run opts (evs @ [Failed n])) = emitted (run opts evs)
   \<and> filter isError (emitted (run opts evs)) = map ErrorEvent (take 1 (redisErrors evs))
   \<and> length (filter isError (emitted (run opts evs))) \<le> 1
   \<and> length (filter isSummary (emitted (run opts evs))) \<le> 1"
proof (intro conjI impI)
  show "run opts (evs @ [Resolved n rs])
      = run opts (evs @ [Resolved n (map (\<lambda>r. (None, snd r)) rs)])"
    unfolding run_snoc by (rule step_resolved_values)
next
  let ?s = "run opts evs"
  assume a: "n < length (pipelinePromises ?s) \<and> status (pipelinePromises ?s ! n) = Pending
        \<and> length (commands (pipelinePromises ?s ! n)) \<le> length rs"
  then have "pipelinePromises ?s ! n \<in> set (pipelinePromises ?s)"
    by simp
  then have "commands (pipelinePromises ?s ! n)
      = pipelineCommands opts (batchKeys (pipelinePromises ?s ! n))"
    by (rule commands_run)
  then have "(if checkTTL opts then 2 * length (batchKeys (pipelinePromises ?s ! n))
          else length (batchKeys (pipelinePromises ?s ! n))) \<le> length rs"
    using a by (simp add: pipelineCommands_length)
  then have "status (pipelinePromises (onResolved opts n rs ?s) ! n) = Fulfilled"
    using a by (intro resolved_fulfils) simp_all
  then show "status (pipelinePromises (run opts (evs @ [Resolved n rs])) ! n) = Fulfilled"
    unfolding run_snoc using a by simp
next
  assume "Rejected \<in> status ` set (pipelinePromises (run opts evs))"
  then have "\<not> summaryWritten (run opts evs)"
    using invs_run scanInv_rejected by blast
  then have *: "\<not> list_ex isSummary (emitted (run opts evs))
       \<and> EndEvent \<notin> set (emitted (run opts evs))"
    using invs_run unwritten_emitted by blast
  from * show "\<not> list_ex isSummary (emitted (run opts evs))" by simp
  from * show "EndEvent \<notin> set (emitted (run opts evs))" by simp
next
  show "emitted (run opts (evs @ [Failed n])) = emitted (run opts evs)"
    unfolding run_snoc by (rule step_failed_emitted)
next
  show "filter isError (emitted (run opts evs)) = map ErrorEvent (take 1 (redisErrors evs))"
    using errors_run by simp
next
  show "length (filter isError (emitted (run opts evs))) \<le> 1"
    using errors_run [of opts evs] by simp
next
  have "emittedShape opts (run opts evs)" using invs_run by simp
  then show "length (filter isSummary (emitted (run opts evs))) \<le> 1"
    by (simp add: summaries_of_shape)
qed

theorem failed_batch_goes_unnoticed_witness:
  "1 < length (pipelinePromises (run plainOptions (take 3 failedCommandEvents)))
   \<and> status (pipelinePromises (run plainOptions (take 3 failedCommandEvents)) ! 1) = Pending
   \<and> length (commands (pipelinePromises (run plainOptions (take 3 failedCommandEvents)) ! 1))
       \<le> length [failed ''ERR no such key'']
   \<and> status (pipelinePromises (run plainOptions
        (take 3 failedCommandEvents @ [Resolved 1 [failed ''ERR no such key'']])) ! 1) = Fulfilled
   \<and> Rejected \<in> status ` set (pipelinePromises (run plainOptions failedBatchEvents))
   \<and> \<not> list_ex isSummary (emitted (run plainOptions failedBatchEvents))
   \<and> EndEvent \<notin> set (emitted (run plainOptions failedBatchEvents))
   \<and> filter isError (emitted (run plainOptions failedBatchEvents)) = []"
proof -
  have a: "1 < length (pipelinePromises (run plainOptions (take 3 failedCommandEvents)))
      \<and> status (pipelinePromises (run plainOptions (take 3 failedCommandEvents)) ! 1) = Pending
      \<and> length (commands (pipelinePromises (run plainOptions (take 3 failedCommandEvents)) ! 1))
          \<le> length [failed ''ERR no such key'']"
    by (simp add: scan_defs failedCommandEvents_def plainOptions_def)
  have r: "Rejected \<in> status ` set (pipelinePromises (run plainOptions failedBatchEvents))"
    by (simp add: scan_defs failedBatchEvents_def plainOptions_def)
  have e: "redisErrors failedBatchEvents = []"
    by (simp add: failedBatchEvents_def)
  have f: "status (pipelinePromises (run plainOptions
        (take 3 failedCommandEvents @ [Resolved 1 [failed ''ERR no such key'']])) ! 1) = Fulfilled"
    using a failed_batch_goes_unnoticed [of plainOptions "take 3 failedCommandEvents" 1
        "[failed ''ERR no such key'']"]
    by blast
  have g: "\<not> list_ex isSummary (emitted (run plainOptions failedBatchEvents))
      \<and> EndEvent \<notin> set (emitted (run plainOptions failedBatchEvents))
      \<and> filter isError (emitted (run plainOptions failedBatchEvents))
          = map ErrorEvent (take 1 (redisErrors failedBatchEvents))"
    using r failed_batch_goes_unnoticed [of plainOptions failedBatchEvents 0 "[]"]
    by blast
  show ?thesis
    using a r f g by (simp add: e)
qed

text \<open>
  C6 as stated fails.  When the command of the second page's batch fails (scenario E), its
  error comes back in the reply and is not read: the scan emits both keys, the second with an
  undefined idle time, then the summary and the end, and no error.  When the connection
  reports an error and the scan goes on, the scan emits the error and later the summary: both
  terminal signals.
\<close>

theorem failed_batch_still_summarised:
  "emitted (run plainOptions failedCommandEvents) =
     [DataEntry \<lparr> name = ''localhost:6379'', key = ''k0'', idletime = JSNumber 10, ttl = None \<rparr>,
      DataEntry \<lparr> name = ''localhost:6379'', key = ''k1'', idletime = JSUndefined, ttl = None \<rparr>,
      DataSummary 2 2 plainOptions, EndEvent]
   \<and> emitted (run plainOptions connectionErrorEvents) =
     [ErrorEvent ''ECONNRESET'',
      DataEntry \<lparr> name = ''localhost:6379'', key = ''k0'', idletime = JSNumber 10, ttl = None \<rparr>,
      DataSummary 1 1 plainOptions, EndEvent]"
  by (simp add: scan_defs failedCommandEvents_def connectionErrorEvents_def plainOptions_def
        showNat.simps)

text \<open>
  C7.  At every point of a scan \<open>streamKeysScanned\<close> is the sum of the lengths of the pages
  dispatched so far.  A page that is delivered adds its length at once, while its own fetch is
  still pending, and a fetch that settles changes nothing; so the counter never decreases.
  The summary carries the total of the dispatched pages' lengths.
\<close>

theorem keysScanned_counts_dispatched_pages:
  "streamKeysScanned (run opts evs) = dispatchedKeys (run opts evs)
   \<and> streamKeysScanned (run opts evs) \<le> streamKeysScanned (run opts (evs @ evs2))
   \<and> (\<not> paused (run opts evs) \<and> \<not> ended (run opts evs) \<longrightarrow>
        streamKeysScanned (run opts (evs @ [Page batch]))
          = streamKeysScanned (run opts evs) + length batch
      \<and> map batchKeys (pipelinePromises (run opts (evs @ [Page batch])))
          = map batchKeys (pipelinePromises (run opts evs)) @ [batch]
      \<and> status (last (pipelinePromises (run opts (evs @ [Page batch])))) = Pending)
   \<and> streamKeysScanned (run opts (evs @ [Resolved n rs])) = streamKeysScanned (run opts evs)
   \<and> streamKeysScanned (run opts (evs @ [Failed n])) = streamKeysScanned (run opts evs)
   \<and> (DataSummary a b c \<in> set (emitted (run opts evs)) \<longrightarrow>
        a = dispatchedKeys (run opts evs))"
proof (intro conjI impI)
  show "streamKeysScanned (run opts evs) = dispatchedKeys (run opts evs)"
    by (rule scanned_run)
next
  show "streamKeysScanned (run opts evs) \<le> streamKeysScanned (run opts (evs @ evs2))"
    unfolding run_append by (rule scanned_mono)
next
  assume a: "\<not> paused (run opts evs) \<and> \<not> ended (run opts evs)"
  show "streamKeysScanned (run opts (evs @ [Page batch]))
          = streamKeysScanned (run opts evs) + length batch"
    unfolding run_snoc step_scanned using a by simp
  show "map batchKeys (pipelinePromises (run opts (evs @ [Page batch])))
          = map batchKeys (pipelinePromises (run opts evs)) @ [batch]"
    unfolding run_snoc step_pages using a by simp
  show "status (last (pipelinePromises (run opts (evs @ [Page batch])))) = Pending"
    unfolding run_snoc using a by (simp add: onData_def Let_def)
next
  show "streamKeysScanned (run opts (evs @ [Resolved n rs])) = streamKeysScanned (run opts evs)"
    unfolding run_snoc step_scanned by simp
next
  show "streamKeysScanned (run opts (evs @ [Failed n])) = streamKeysScanned (run opts evs)"
    unfolding run_snoc step_scanned by simp
next
  assume "DataSummary a b c \<in> set (emitted (run opts evs))"
  then have "a = streamKeysScanned (run opts evs)"
    using invs_run summary_in_emitted by blast
  then show "a = dispatchedKeys (run opts evs)"
    by (simp add: scanned_run)
qed

theorem keysScanned_counts_dispatched_pages_witness:
  "\<not> paused (run plainOptions [Page [''a'', ''b'']])
   \<and> \<not> ended (run plainOptions [Page [''a'', ''b'']])
   \<and> streamKeysScanned (run plainOptions ([Page [''a'', ''b'']] @ [Page [''c'', ''d'', ''e'']])) = 5
   \<and> status (last (pipelinePromises
        (run plainOptions ([Page [''a'', ''b'']] @ [Page [''c'', ''d'', ''e'']])))) = Pending
   \<and> DataSummary 2 2 scanLimitOptions \<in> set (emitted (run scanLimitOptions raceEvents))
   \<and> dispatchedKeys (run scanLimitOptions raceEvents) = 2"
proof -
  have a: "\<not> paused (run plainOptions [Page [''a'', ''b'']])
      \<and> \<not> ended (run plainOptions [Page [''a'', ''b'']])"
    by (simp add: scan_defs plainOptions_def)
  have b: "streamKeysScanned (run plainOptions [Page [''a'', ''b'']]) = 2"
    by (simp add: scan_defs plainOptions_def)
  have c: "DataSummary 2 2 scanLimitOptions \<in> set (emitted (run scanLimitOptions raceEvents))"
    by (simp add: scan_defs raceEvents_def scanLimitOptions_def plainOptions_def)
  show ?thesis
    using a c
      keysScanned_counts_dispatched_pages [of plainOptions "[Page [''a'', ''b'']]" "[]"
        "[''c'', ''d'', ''e'']" 0 "[]" 0 0 plainOptions]
      keysScanned_counts_dispatched_pages [of scanLimitOptions raceEvents "[]" "[]" 0 "[]" 2 2
        scanLimitOptions]
    by (simp add: b)
qed

subsection \<open>The select limit\<close>

lemma onKey_frozen:
  "atSelectLimit s \<or> noExpiry opts = Some False \<Longrightarrow> onKey opts k idle t s = s"
  by (auto simp: onKey_def keyMatches_noExpiry_false)

lemma eachKey_frozen:
  assumes "atSelectLimit s \<or> noExpiry opts = Some False"
  shows "snd (eachKey opts rs i ks s) = s"
  by (induction ks arbitrary: i) (simp_all add: onKey_frozen [OF assms] Let_def split: option.splits)

lemma step_frozen:
  assumes "atSelectLimit s \<or> noExpiry opts = Some False"
  shows "atSelectLimit (step opts s e) = atSelectLimit s
       \<and> streamKeysSelected (step opts s e) = streamKeysSelected s
       \<and> filter isEntry (emitted (step opts s e)) = filter isEntry (emitted s)"
  by (cases e)
     (simp_all add: promiseAll_entries onResolved_selection eachKey_frozen [OF assms]
        onRedisError_def)

lemma foldl_frozen:
  assumes "atSelectLimit s \<or> noExpiry opts = Some False"
  shows "atSelectLimit (foldl (step opts) s evs) = atSelectLimit s
       \<and> streamKeysSelected (foldl (step opts) s evs) = streamKeysSelected s
       \<and> filter isEntry (emitted (foldl (step opts) s evs)) = filter isEntry (emitted s)"
  using assms
proof (induction evs arbitrary: s)
  case Nil
  show ?case by simp
next
  case (Cons e evs)
  have "atSelectLimit (step opts s e) \<or> noExpiry opts = Some False"
    using Cons.prems step_frozen [of s opts e] by auto
  from Cons.IH [OF this] show ?case
    using step_frozen [OF Cons.prems, of e] by simp
qed

lemma onKey_withinLimit:
  assumes "limit opts = Num L" and "withinLimit L s"
  shows "withinLimit L (onKey opts k idle t s)"
  using assms by (auto simp: onKey_def withinLimit_def)

lemma eachKey_withinLimit:
  assumes "limit opts = Num L"
  shows "withinLimit L s \<Longrightarrow> withinLimit L (snd (eachKey opts rs i ks s))"
  by (induction ks arbitrary: i s)
     (simp_all add: onKey_withinLimit [OF assms] Let_def split: option.splits)

lemma withinLimit_cong:
  "streamKeysSelected s' = streamKeysSelected s \<Longrightarrow> atSelectLimit s' = atSelectLimit s
     \<Longrightarrow> withinLimit L s' = withinLimit L s"
  by (simp add: withinLimit_def)

lemma step_withinLimit:
  assumes "limit opts = Num L" and "withinLimit L s"
  shows "withinLimit L (step opts s e)"
proof (cases e)
  case (Resolved n rs)
  have "withinLimit L (promiseAll opts (onResolved opts n rs s))
      = withinLimit L (snd (eachKey opts rs 0 (batchKeys (pipelinePromises s ! n)) s))"
    by (rule withinLimit_cong) (simp_all add: onResolved_selection)
  then show ?thesis
    using Resolved assms by (simp add: eachKey_withinLimit)
next
  case (Page batch)
  have "withinLimit L (promiseAll opts
      (onData opts batch (s\<lparr> pagesRequested := pagesRequested s + 1 \<rparr>))) = withinLimit L s"
    by (rule withinLimit_cong) simp_all
  then show ?thesis using Page assms(2) by simp
next
  case ReadAhead
  have "withinLimit L (s\<lparr> pagesRequested := pagesRequested s + 1 \<rparr>) = withinLimit L s"
    by (rule withinLimit_cong) simp_all
  then show ?thesis using ReadAhead assms(2) by simp
next
  case StreamEnd
  have "withinLimit L (promiseAll opts (endScan (s\<lparr>ended := True\<rparr>))) = withinLimit L s"
    by (rule withinLimit_cong) simp_all
  then show ?thesis using StreamEnd assms(2) by simp
next
  case (Failed n)
  have "withinLimit L (onRejected n s) = withinLimit L s"
    by (rule withinLimit_cong) simp_all
  then show ?thesis using Failed assms(2) by simp
next
  case (RedisError err)
  have "withinLimit L (onRedisError err s) = withinLimit L s"
    by (rule withinLimit_cong) simp_all
  then show ?thesis using RedisError assms(2) by simp
qed

lemma withinLimit_run:
  assumes "limit opts = Num L" and "1 \<le> L"
  shows "withinLimit L (run opts evs)"
  unfolding run_def
proof (rule foldl_invariant)
  show "withinLimit L initialState"
    using assms(2) by (simp add: withinLimit_def initialState_def)
qed (rule step_withinLimit [OF assms(1)])

lemma entries_count_step:
  assumes "length (filter isEntry (emitted s)) = streamKeysSelected s"
  shows "length (filter isEntry (emitted (step opts s e))) = streamKeysSelected (step opts s e)"
proof (cases e)
  case (Resolved n rs)
  obtain es where es: "emitted (snd (eachKey opts rs 0 (batchKeys (pipelinePromises s ! n)) s))
        = emitted s @ es" "list_all isEntry es"
      "streamKeysSelected (snd (eachKey opts rs 0 (batchKeys (pipelinePromises s ! n)) s))
        = streamKeysSelected s + length es"
    using eachKey_emitted by blast
  have "filter isEntry es = es"
    using es(2) by (simp add: list_all_iff)
  then show ?thesis
    using Resolved assms es by (simp add: promiseAll_entries onResolved_selection)
qed (simp_all add: assms promiseAll_entries onRedisError_def)

lemma entries_count_run:
  "length (filter isEntry (emitted (run opts evs))) = streamKeysSelected (run opts evs)"
  unfolding run_def
  by (rule foldl_invariant) (simp_all add: initialState_def entries_count_step)

text \<open>
  C3.  For every scan with a finite select limit \<open>L \<ge> 1\<close>: at every point
  \<open>streamKeysSelected\<close> is at most \<open>L\<close>, and so are the number of emitted entries and the
  \<open>keysSelected\<close> of the summary; \<open>atSelectLimit\<close> is true exactly when the counter has reached
  \<open>L\<close>; and once it is true it stays true, whatever happens next, and no further key is
  selected or emitted.
\<close>

theorem select_limit_respected:
  assumes "limit opts = Num L" and "1 \<le> L"
  shows "int (streamKeysSelected (run opts evs)) \<le> L
       \<and> (atSelectLimit (run opts evs) \<longleftrightarrow> int (streamKeysSelected (run opts evs)) = L)
       \<and> length (filter isEntry (emitted (run opts evs))) = streamKeysSelected (run opts evs)
       \<and> (DataSummary a b c \<in> set (emitted (run opts evs)) \<longrightarrow> int b \<le> L)
       \<and> (atSelectLimit (run opts evs) \<longrightarrow>
            atSelectLimit (run opts (evs @ evs2))
          \<and> streamKeysSelected (run opts (evs @ evs2)) = streamKeysSelected (run opts evs)
          \<and> filter isEntry (emitted (run opts (evs @ evs2)))
              = filter isEntry (emitted (run opts evs)))"
proof (intro conjI impI)
  have w: "withinLimit L (run opts evs)"
    using assms by (rule withinLimit_run)
  show "int (streamKeysSelected (run opts evs)) \<le> L"
    using w by (simp add: withinLimit_def)
  show "atSelectLimit (run opts evs) \<longleftrightarrow> int (streamKeysSelected (run opts evs)) = L"
    using w by (auto simp: withinLimit_def)
  show "length (filter isEntry (emitted (run opts evs))) = streamKeysSelected (run opts evs)"
    by (rule entries_count_run)
  show "int b \<le> L" if "DataSummary a b c \<in> set (emitted (run opts evs))"
  proof -
    have "b = streamKeysSelected (run opts evs)"
      using that invs_run summary_in_emitted by blast
    then show ?thesis using w by (simp add: withinLimit_def)
  qed
next
  assume "atSelectLimit (run opts evs)"
  then have f: "atSelectLimit (run opts evs) \<or> noExpiry opts = Some False" by simp
  show "atSelectLimit (run opts (evs @ evs2))"
    unfolding run_append using foldl_frozen [OF f] f \<open>atSelectLimit (run opts evs)\<close> by simp
  show "streamKeysSelected (run opts (evs @ evs2)) = streamKeysSelected (run opts evs)"
    unfolding run_append using foldl_frozen [OF f] by simp
  show "filter isEntry (emitted (run opts (evs @ evs2))) = filter isEntry (emitted (run opts evs))"
    unfolding run_append using foldl_frozen [OF f] by simp
qed

theorem select_limit_respected_witness:
  "limit selectLimitOptions = Num 1 \<and> (1::int) \<le> 1
   \<and> atSelectLimit (run selectLimitOptions threeKeysEvents)
   \<and> int (streamKeysSelected (run selectLimitOptions threeKeysEvents)) = 1
   \<and> length (filter isEntry (emitted (run selectLimitOptions threeKeysEvents))) = 1
   \<and> DataSummary 3 1 selectLimitOptions \<in> set (emitted (run selectLimitOptions threeKeysEvents))
   \<and> streamKeysSelected (run selectLimitOptions (threeKeysEvents @ [Page [''d''], StreamEnd]))
       = streamKeysSelected (run selectLimitOptions threeKeysEvents)"
proof -
  have l: "limit selectLimitOptions = Num 1"
    by (simp add: selectLimitOptions_def plainOptions_def)
  have a: "atSelectLimit (run selectLimitOptions threeKeysEvents)"
    by (simp add: scan_defs threeKeysEvents_def selectLimitOptions_def plainOptions_def)
  have d: "DataSummary 3 1 selectLimitOptions
      \<in> set (emitted (run selectLimitOptions threeKeysEvents))"
    by (simp add: scan_defs threeKeysEvents_def selectLimitOptions_def plainOptions_def)
  show ?thesis
    using l a d
      select_limit_respected [OF l, of threeKeysEvents 3 1 selectLimitOptions
        "[Page [''d''], StreamEnd]"]
    by simp
qed

subsection \<open>Pausing the stream\<close>

lemma reached_iff: "reached n l \<longleftrightarrow> (\<exists>k. l = Num k \<and> k \<le> int n)"
  by (cases l) simp_all

lemma step_paused:
  "paused (step opts s e) =
     (paused s \<or> (case e of
        Page batch \<Rightarrow> \<not> ended s \<and>
          (atSelectLimit s \<or> reached (streamKeysScanned s + length batch) (scanLimit opts))
      | _ \<Rightarrow> False))"
  by (cases e) (auto simp: onData_def Let_def)

lemma step_atSelectLimit_page: "atSelectLimit (step opts s (Page batch)) = atSelectLimit s"
  by simp

lemma foldl_paused:
  assumes "paused s"
  shows "paused (foldl (step opts) s evs)
       \<and> map batchKeys (pipelinePromises (foldl (step opts) s evs))
           = map batchKeys (pipelinePromises s)
       \<and> streamKeysScanned (foldl (step opts) s evs) = streamKeysScanned s"
  using assms
proof (induction evs arbitrary: s)
  case Nil
  show ?case by (simp add: Nil)
next
  case (Cons e evs)
  have p: "paused (step opts s e)"
    using Cons.prems by (simp add: step_paused)
  have "map batchKeys (pipelinePromises (step opts s e)) = map batchKeys (pipelinePromises s)"
    "streamKeysScanned (step opts s e) = streamKeysScanned s"
    using Cons.prems by (simp_all add: step_pages step_scanned split: event.splits)
  then show ?case
    using Cons.IH [OF p] by simp
qed

lemma page_latches:
  "\<not> paused s \<Longrightarrow> paused (step opts s (Page batch))
     \<Longrightarrow> endScanCalled (step opts s (Page batch))"
  by (auto simp: onData_def Let_def split: if_splits)

lemma requested_step:
  assumes "length (pipelinePromises s) \<le> pagesRequested s
     \<and> (\<not> paused s \<longrightarrow> pagesRequested s = length (pipelinePromises s))"
  shows "length (pipelinePromises (step opts s e)) \<le> pagesRequested (step opts s e)
     \<and> (\<not> paused (step opts s e) \<longrightarrow>
          pagesRequested (step opts s e) = length (pipelinePromises (step opts s e)))"
  using assms by (cases e) (auto simp: onData_def Let_def)

lemma requested_run:
  "length (pipelinePromises (run opts evs)) \<le> pagesRequested (run opts evs)
     \<and> (\<not> paused (run opts evs) \<longrightarrow>
          pagesRequested (run opts evs) = length (pipelinePromises (run opts evs)))"
  unfolding run_def
  by (rule foldl_invariant) (simp_all add: initialState_def requested_step)

lemma tenPages_run:
  "paused (run scanLimitOptions tenPages)
   \<and> map batchKeys (pipelinePromises (run scanLimitOptions tenPages)) = [[''k0''], [''k1'']]
   \<and> streamKeysScanned (run scanLimitOptions tenPages) = 2"
  by (simp add: scan_defs tenPages_def scanLimitOptions_def plainOptions_def)

text \<open>
  C8 (amended).  The termination check runs at the end of each page dispatch and nowhere else:
  a delivered page leaves the stream paused (and \<^verbatim>\<open>endScan\<close> called) exactly when, at that
  moment, \<open>atSelectLimit\<close> is true or \<open>streamKeysScanned \<ge> scanLimit\<close>; a batch that settles
  never pauses it.  Once the stream is paused it stays paused and no further page is delivered
  to the scanner: none is dispatched or counted.  The paused stream may still request pages
  for its buffer, so the pages requested are at least the pages dispatched, and exactly those
  while the stream is not paused.  With \<open>scanLimit\<close> 2 over ten keys in pages of one key,
  exactly the first two pages are dispatched, whatever happens afterwards, and a summary
  reports \<open>keysScanned\<close> 2.
\<close>

theorem termination_check_after_each_page:
  "(\<not> paused (run opts evs) \<and> \<not> ended (run opts evs) \<longrightarrow>
      (paused (run opts (evs @ [Page batch])) \<longleftrightarrow>
         atSelectLimit (run opts (evs @ [Page batch]))
       \<or> (\<exists>k. scanLimit opts = Num k
              \<and> k \<le> int (streamKeysScanned (run opts (evs @ [Page batch])))))
    \<and> (paused (run opts (evs @ [Page batch])) \<longrightarrow>
         endScanCalled (run opts (evs @ [Page batch]))))
   \<and> (paused (run opts evs) \<longrightarrow>
        paused (run opts (evs @ evs2))
      \<and> map batchKeys (pipelinePromises (run opts (evs @ evs2)))
          = map batchKeys (pipelinePromises (run opts evs))
      \<and> streamKeysScanned (run opts (evs @ evs2)) = streamKeysScanned (run opts evs))
   \<and> paused (run opts (evs @ [Resolved n rs])) = paused (run opts evs)
   \<and> paused (run opts (evs @ [Failed n])) = paused (run opts evs)
   \<and> length (pipelinePromises (run opts evs)) \<le> pagesRequested (run opts evs)
   \<and> (\<not> paused (run opts evs) \<longrightarrow>
        pagesRequested (run opts evs) = length (pipelinePromises (run opts evs)))
   \<and> map batchKeys (pipelinePromises (run scanLimitOptions (tenPages @ evs2)))
        = [[''k0''], [''k1'']]
   \<and> streamKeysScanned (run scanLimitOptions (tenPages @ evs2)) = 2
   \<and> (DataSummary a b c \<in> set (emitted (run scanLimitOptions (tenPages @ evs2))) \<longrightarrow> a = 2)"
proof (intro conjI impI)
  assume a: "\<not> paused (run opts evs) \<and> \<not> ended (run opts evs)"
  have "paused (run opts (evs @ [Page batch])) \<longleftrightarrow>
         atSelectLimit (run opts evs)
       \<or> reached (streamKeysScanned (run opts evs) + length batch) (scanLimit opts)"
    unfolding run_snoc step_paused using a by simp
  moreover have "atSelectLimit (run opts (evs @ [Page batch])) = atSelectLimit (run opts evs)"
    unfolding run_snoc by (rule step_atSelectLimit_page)
  moreover have "streamKeysScanned (run opts (evs @ [Page batch]))
      = streamKeysScanned (run opts evs) + length batch"
    unfolding run_snoc step_scanned using a by simp
  ultimately show "paused (run opts (evs @ [Page batch])) \<longleftrightarrow>
         atSelectLimit (run opts (evs @ [Page batch]))
       \<or> (\<exists>k. scanLimit opts = Num k
              \<and> k \<le> int (streamKeysScanned (run opts (evs @ [Page batch]))))"
    by (simp only: reached_iff)
  show "endScanCalled (run opts (evs @ [Page batch]))"
    if "paused (run opts (evs @ [Page batch]))"
    using that a unfolding run_snoc by (simp only: page_latches not_False_eq_True)
next
  assume p: "paused (run opts evs)"
  show "paused (run opts (evs @ evs2))"
    unfolding run_append using foldl_paused [OF p] by simp
  show "map batchKeys (pipelinePromises (run opts (evs @ evs2)))
          = map batchKeys (pipelinePromises (run opts evs))"
    unfolding run_append using foldl_paused [OF p] by simp
  show "streamKeysScanned (run opts (evs @ evs2)) = streamKeysScanned (run opts evs)"
    unfolding run_append using foldl_paused [OF p] by simp
next
  show "paused (run opts (evs @ [Resolved n rs])) = paused (run opts evs)"
    unfolding run_snoc step_paused by simp
  show "paused (run opts (evs @ [Failed n])) = paused (run opts evs)"
    unfolding run_snoc step_paused by simp
  show "length (pipelinePromises (run opts evs)) \<le> pagesRequested (run opts evs)"
    using requested_run by simp
  show "pagesRequested (run opts evs) = length (pipelinePromises (run opts evs))"
    if "\<not> paused (run opts evs)"
    using that requested_run by simp
next
  have p: "paused (run scanLimitOptions tenPages)"
    using tenPages_run by simp
  show pages: "map batchKeys (pipelinePromises (run scanLimitOptions (tenPages @ evs2)))
        = [[''k0''], [''k1'']]"
    unfolding run_append using foldl_paused [OF p] tenPages_run by simp
  show scanned: "streamKeysScanned (run scanLimitOptions (tenPages @ evs2)) = 2"
    unfolding run_append using foldl_paused [OF p] tenPages_run by simp
  show "a = 2" if "DataSummary a b c \<in> set (emitted (run scanLimitOptions (tenPages @ evs2)))"
  proof -
    have "a = streamKeysScanned (run scanLimitOptions (tenPages @ evs2))"
      using that invs_run summary_in_emitted by blast
    then show ?thesis using scanned by simp
  qed
qed

theorem termination_check_after_each_page_witness:
  "\<not> paused (run scanLimitOptions [Page [''k0'']])
   \<and> \<not> ended (run scanLimitOptions [Page [''k0'']])
   \<and> paused (run scanLimitOptions ([Page [''k0'']] @ [Page [''k1'']]))
   \<and> endScanCalled (run scanLimitOptions ([Page [''k0'']] @ [Page [''k1'']]))
   \<and> paused (run scanLimitOptions ([] @ bigPage))
   \<and> paused (run scanLimitOptions [Page [''k0''], Page [''k1'']])
   \<and> map batchKeys (pipelinePromises
        (run scanLimitOptions ([Page [''k0''], Page [''k1'']] @ [Page [''k2''], ReadAhead])))
       = [[''k0''], [''k1'']]
   \<and> DataSummary 2 2 scanLimitOptions \<in> set (emitted (run scanLimitOptions tenPagesResolved))
   \<and> streamKeysScanned (run scanLimitOptions tenPagesResolved) = 2"
proof -
  have a: "\<not> paused (run scanLimitOptions [Page [''k0'']])
      \<and> \<not> ended (run scanLimitOptions [Page [''k0'']])"
    by (simp add: scan_defs scanLimitOptions_def plainOptions_def)
  have a0: "\<not> paused (run scanLimitOptions []) \<and> \<not> ended (run scanLimitOptions [])"
    by (simp add: scan_defs)
  have r: "scanLimit scanLimitOptions = Num 2
      \<and> 2 \<le> int (streamKeysScanned (run scanLimitOptions ([Page [''k0'']] @ [Page [''k1'']])))"
    by (simp add: scan_defs scanLimitOptions_def plainOptions_def)
  have r0: "scanLimit scanLimitOptions = Num 2
      \<and> 2 \<le> int (streamKeysScanned (run scanLimitOptions ([] @ [Page [''a'', ''b'', ''c'', ''d'', ''e'', ''f'']])))"
    by (simp add: scan_defs scanLimitOptions_def plainOptions_def)
  have p: "paused (run scanLimitOptions [Page [''k0''], Page [''k1'']])"
    by (simp add: scan_defs scanLimitOptions_def plainOptions_def)
  have q: "map batchKeys (pipelinePromises (run scanLimitOptions [Page [''k0''], Page [''k1'']]))
      = [[''k0''], [''k1'']]"
    by (simp add: scan_defs scanLimitOptions_def plainOptions_def)
  have d: "DataSummary 2 2 scanLimitOptions
      \<in> set (emitted (run scanLimitOptions (tenPages @ [Resolved 0 [ok 10], Resolved 1 [ok 20]])))"
    by (simp add: scan_defs tenPages_def scanLimitOptions_def plainOptions_def)
  have t1: "paused (run scanLimitOptions ([Page [''k0'']] @ [Page [''k1'']]))
      \<and> endScanCalled (run scanLimitOptions ([Page [''k0'']] @ [Page [''k1'']]))"
    using a r
      termination_check_after_each_page [of scanLimitOptions "[Page [''k0'']]" "[''k1'']"
        "[Resolved 0 [ok 10], Resolved 1 [ok 20]]" 0 "[]" 2 2 scanLimitOptions]
    by blast
  have t2: "streamKeysScanned
        (run scanLimitOptions (tenPages @ [Resolved 0 [ok 10], Resolved 1 [ok 20]])) = 2"
    using termination_check_after_each_page [of scanLimitOptions "[Page [''k0'']]" "[''k1'']"
        "[Resolved 0 [ok 10], Resolved 1 [ok 20]]" 0 "[]" 2 2 scanLimitOptions]
    by blast
  have t3: "paused (run scanLimitOptions ([] @ bigPage))"
    using a0 r0
      termination_check_after_each_page [of scanLimitOptions "[]"
        "[''a'', ''b'', ''c'', ''d'', ''e'', ''f'']" "[]" 0 "[]" 2 2 scanLimitOptions]
    unfolding bigPage_def by blast
  have t4: "map batchKeys (pipelinePromises
        (run scanLimitOptions ([Page [''k0''], Page [''k1'']] @ [Page [''k2''], ReadAhead])))
       = map batchKeys (pipelinePromises (run scanLimitOptions [Page [''k0''], Page [''k1'']]))"
    using p
      termination_check_after_each_page [of scanLimitOptions "[Page [''k0''], Page [''k1'']]"
        "[]" "[Page [''k2''], ReadAhead]" 0 "[]" 2 2 scanLimitOptions]
    by blast
  show ?thesis
    using a p d t1 t2 t3 t4 q by (simp add: tenPagesResolved_def)
qed

text \<open>
  C8 as stated fails in "no further page is ever requested": pausing a stream stops its
  deliveries, not its reading.  After the second page has paused the stream, the stream
  requests a third page for its buffer; the scanner has dispatched two pages, and three have
  been requested.
\<close>

theorem page_requested_after_pause:
  "paused (run scanLimitOptions (take 2 pausedThenReadAhead))
   \<and> pagesRequested (run scanLimitOptions (take 2 pausedThenReadAhead)) = 2
   \<and> pagesRequested (run scanLimitOptions pausedThenReadAhead) = 3
   \<and> length (pipelinePromises (run scanLimitOptions pausedThenReadAhead)) = 2
   \<and> streamKeysScanned (run scanLimitOptions pausedThenReadAhead) = 2"
  by (simp add: scan_defs pausedThenReadAhead_def scanLimitOptions_def plainOptions_def)

subsection \<open>The TTL flag\<close>

lemma onKey_entryShape:
  assumes "list_all (entryShape opts) (emitted s)" and "\<not> checkTTL opts \<longrightarrow> t = JSFalse"
  shows "list_all (entryShape opts) (emitted (onKey opts k idle t s))"
  using assms by (auto simp: onKey_def entryShape_def)

lemma eachKey_entryShape:
  "list_all (entryShape opts) (emitted s)
     \<Longrightarrow> list_all (entryShape opts) (emitted (snd (eachKey opts rs i ks s)))"
  by (induction ks arbitrary: i s)
     (simp_all add: onKey_entryShape Let_def split: option.splits)

lemma promiseAll_entryShape:
  assumes "list_all (entryShape opts) (emitted s)"
  shows "list_all (entryShape opts) (emitted (promiseAll opts s))"
proof -
  have "list_all (entryShape opts)
      (concat (map (\<lambda>n. [DataSummary a b opts, EndEvent]) ns))" for a b ns
    by (induction ns) (simp_all add: entryShape_def)
  then show ?thesis
    using assms by (simp add: promiseAll_def)
qed

lemma entryShape_step:
  assumes "list_all (entryShape opts) (emitted s)"
  shows "list_all (entryShape opts) (emitted (step opts s e))"
  using assms
  by (cases e)
     (simp_all add: promiseAll_entryShape onResolved_selection eachKey_entryShape
        onRedisError_def entryShape_def)

lemma entryShape_run: "list_all (entryShape opts) (emitted (run opts evs))"
  unfolding run_def
  by (rule foldl_invariant) (simp_all add: initialState_def entryShape_step)

text \<open>
  C9.  The flag \<open>checkTTL\<close> depends on the options alone and is true iff \<open>noExpiry\<close>,
  \<open>maxTTL\<close> or \<open>minTTL\<close> is present.  Every pipeline of a scan holds, for each key of its page
  in order, an idle-time command followed, exactly when the flag is true, by a TTL command.
  Every selected-key record emitted has a \<open>ttl\<close> field exactly when the flag is true; the
  field holds the value the filter accepted, which under \<open>noExpiry\<close> is \<open>-1\<close>.
\<close>

theorem ttl_fetched_and_reported_iff_checkTTL:
  "checkTTL opts = (noExpiry opts \<noteq> None \<or> maxTTL opts \<noteq> None \<or> minTTL opts \<noteq> None)
   \<and> (p \<in> set (pipelinePromises (run opts evs)) \<longrightarrow>
        commands p =
          concat (map (\<lambda>k. if checkTTL opts then [ObjectIdletime k, Ttl k]
                           else [ObjectIdletime k]) (batchKeys p))
      \<and> (Ttl k \<in> set (commands p) \<longleftrightarrow> checkTTL opts \<and> k \<in> set (batchKeys p))
      \<and> (ObjectIdletime k \<in> set (commands p) \<longleftrightarrow> k \<in> set (batchKeys p)))
   \<and> (DataEntry e \<in> set (emitted (run opts evs)) \<longrightarrow>
        (ttl e \<noteq> None \<longleftrightarrow> checkTTL opts)
      \<and> (checkTTL opts \<longrightarrow> (\<exists>t. ttl e = Some t \<and> keyMatches opts (idletime e) t))
      \<and> (noExpiry opts \<noteq> None \<longrightarrow> ttl e = Some (JSNumber (- 1))))"
proof (intro conjI impI)
  show "checkTTL opts = (noExpiry opts \<noteq> None \<or> maxTTL opts \<noteq> None \<or> minTTL opts \<noteq> None)"
    by (cases "noExpiry opts"; cases "maxTTL opts"; cases "minTTL opts")
       (simp_all add: checkTTL_def)
next
  assume p: "p \<in> set (pipelinePromises (run opts evs))"
  have c: "commands p = pipelineCommands opts (batchKeys p)"
    using p by (rule commands_run)
  have "(\<lambda>k. ObjectIdletime k # (if checkTTL opts then [Ttl k] else []))
      = (\<lambda>k. if checkTTL opts then [ObjectIdletime k, Ttl k] else [ObjectIdletime k])"
    by auto
  then show "commands p =
          concat (map (\<lambda>k. if checkTTL opts then [ObjectIdletime k, Ttl k]
                           else [ObjectIdletime k]) (batchKeys p))"
    unfolding c pipelineCommands_def by simp
  show "Ttl k \<in> set (commands p) \<longleftrightarrow> checkTTL opts \<and> k \<in> set (batchKeys p)"
    unfolding c by (rule pipelineCommands_Ttl)
  show "ObjectIdletime k \<in> set (commands p) \<longleftrightarrow> k \<in> set (batchKeys p)"
    unfolding c by (rule pipelineCommands_ObjectIdletime)
next
  assume "DataEntry e \<in> set (emitted (run opts evs))"
  then have sh: "entryShape opts (DataEntry e)"
    using entryShape_run [of opts evs] by (simp add: list_all_iff)
  show "ttl e \<noteq> None \<longleftrightarrow> checkTTL opts"
    using sh by (auto simp: entryShape_def split: if_splits option.splits)
  show m: "\<exists>t. ttl e = Some t \<and> keyMatches opts (idletime e) t" if "checkTTL opts"
    using sh that by (auto simp: entryShape_def split: option.splits)
  show "ttl e = Some (JSNumber (- 1))" if n: "noExpiry opts \<noteq> None"
  proof -
    have "checkTTL opts"
      using n by (cases "noExpiry opts") (simp_all add: checkTTL_def)
    then obtain t where t: "ttl e = Some t" "keyMatches opts (idletime e) t"
      using m by blast
    then have "strictEqMinusOne t"
      using n by (cases "noExpiry opts") (simp_all add: keyMatches_def)
    then show ?thesis
      using t(1) by (cases t) simp_all
  qed
qed

theorem ttl_fetched_and_reported_iff_checkTTL_witness:
  "checkTTL noExpiryOptions
   \<and> \<lparr> batchKeys = [''a'', ''b'', ''c''],
       commands = [ObjectIdletime ''a'', Ttl ''a'', ObjectIdletime ''b'', Ttl ''b'',
                   ObjectIdletime ''c'', Ttl ''c''],
       status = Fulfilled \<rparr> \<in> set (pipelinePromises (run noExpiryOptions scenarioFEvents))
   \<and> DataEntry \<lparr> name = ''localhost:6379'', key = ''c'', idletime = JSNumber 30,
                 ttl = Some (JSNumber (- 1)) \<rparr> \<in> set (emitted (run noExpiryOptions scenarioFEvents))
   \<and> \<not> checkTTL plainOptions
   \<and> DataEntry \<lparr> name = ''localhost:6379'', key = ''k0'', idletime = JSNumber 10, ttl = None \<rparr>
       \<in> set (emitted (run plainOptions connectionErrorEvents))"
proof -
  have p: "\<lparr> batchKeys = [''a'', ''b'', ''c''],
       commands = [ObjectIdletime ''a'', Ttl ''a'', ObjectIdletime ''b'', Ttl ''b'',
                   ObjectIdletime ''c'', Ttl ''c''],
       status = Fulfilled \<rparr> \<in> set (pipelinePromises (run noExpiryOptions scenarioFEvents))"
    by (simp add: scan_defs scenarioFEvents_def noExpiryOptions_def plainOptions_def)
  have e: "DataEntry \<lparr> name = ''localhost:6379'', key = ''c'', idletime = JSNumber 30,
                 ttl = Some (JSNumber (- 1)) \<rparr> \<in> set (emitted (run noExpiryOptions scenarioFEvents))"
    by (simp add: scan_defs scenarioFEvents_def noExpiryOptions_def plainOptions_def
          showNat.simps)
  have f: "DataEntry \<lparr> name = ''localhost:6379'', key = ''k0'', idletime = JSNumber 10, ttl = None \<rparr>
       \<in> set (emitted (run plainOptions connectionErrorEvents))"
    by (simp add: scan_defs connectionErrorEvents_def plainOptions_def showNat.simps)
  show ?thesis
    using p e f
      ttl_fetched_and_reported_iff_checkTTL [of noExpiryOptions _ scenarioFEvents "''a''"
        "\<lparr> name = ''localhost:6379'', key = ''c'', idletime = JSNumber 30,
           ttl = Some (JSNumber (- 1)) \<rparr>"]
      ttl_fetched_and_reported_iff_checkTTL [of plainOptions _ connectionErrorEvents "''a''"
        "\<lparr> name = ''localhost:6379'', key = ''k0'', idletime = JSNumber 10, ttl = None \<rparr>"]
    by (simp add: noExpiryOptions_def plainOptions_def)
qed

subsection \<open>A false \<open>noExpiry\<close>\<close>

text \<open>
  C10.  When the options hold \<open>noExpiry\<close> with a falsy value, the filter rejects every key
  record, whatever its TTL and idle time (and whatever the locals \<^verbatim>\<open>idletime\<close> and \<^verbatim>\<open>ttl\<close>
  hold); so a scan selects and emits no key, and a summary reports \<open>keysSelected\<close> 0.
\<close>

theorem false_noExpiry_selects_nothing:
  assumes "noExpiry opts = Some False"
  shows "\<not> keyMatches opts i v
       \<and> streamKeysSelected (run opts evs) = 0
       \<and> filter isEntry (emitted (run opts evs)) = []
       \<and> (DataSummary a b c \<in> set (emitted (run opts evs)) \<longrightarrow> b = 0)"
proof (intro conjI impI)
  show "\<not> keyMatches opts i v"
    using assms by (rule keyMatches_noExpiry_false)
  have f: "atSelectLimit initialState \<or> noExpiry opts = Some False"
    using assms by simp
  show sel: "streamKeysSelected (run opts evs) = 0"
    unfolding run_def using foldl_frozen [OF f] by (simp add: initialState_def)
  show "filter isEntry (emitted (run opts evs)) = []"
    unfolding run_def using foldl_frozen [OF f] by (simp add: initialState_def)
  show "b = 0" if "DataSummary a b c \<in> set (emitted (run opts evs))"
  proof -
    have "b = streamKeysSelected (run opts evs)"
      using that invs_run summary_in_emitted by blast
    then show ?thesis using sel by simp
  qed
qed

theorem false_noExpiry_selects_nothing_witness:
  "noExpiry noExpiryFalseOptions = Some False
   \<and> \<not> keyMatches noExpiryFalseOptions (JSNumber 10) (JSNumber (- 1))
   \<and> DataSummary 3 0 noExpiryFalseOptions
       \<in> set (emitted (run noExpiryFalseOptions scenarioFEvents))
   \<and> filter isEntry (emitted (run noExpiryFalseOptions scenarioFEvents)) = []"
proof -
  have n: "noExpiry noExpiryFalseOptions = Some False"
    by (simp add: noExpiryFalseOptions_def)
  have d: "DataSummary 3 0 noExpiryFalseOptions
       \<in> set (emitted (run noExpiryFalseOptions scenarioFEvents))"
    by (simp add: scan_defs scenarioFEvents_def noExpiryFalseOptions_def plainOptions_def)
  show ?thesis
    using n d
      false_noExpiry_selects_nothing [OF n, of "JSNumber 10" "JSNumber (- 1)" scenarioFEvents 3 0
        noExpiryFalseOptions]
    by simp
qed

end
